theory Spec2Isabelle
  imports Main "HOL-Library.AList" "HOL-Library.Multiset"
begin

section \<open>Data model\<close>

text \<open>
  The solver of \<^verbatim>\<open>generate.py\<close> works on a \<^verbatim>\<open>Crossword\<close> object and on
  \<^verbatim>\<open>Variable\<close> objects that are declared in a module \<^verbatim>\<open>crossword\<close>. A variable (a slot)
  is a value with a start cell, a direction and a length; a crossword supplies the
  collection of its variables, the vocabulary and the table of overlaps.

  Python sets are kept as lists: the list is the order in which the set is iterated.
  Removing an element leaves the order of the others as it is. A set that is built anew
  from another one, by \<^verbatim>\<open>copy\<close> or by a comprehension, is given the order of the set it
  was built from; the interpreter does not promise that order, so what is stated about
  orders below is stated for domain stores in which every domain has an order of its own.
  Python dictionaries are kept as association lists in insertion order: \<open>map_of\<close> is the
  lookup, \<open>AList.update\<close> stores a value (in place for an existing key, at the end for
  a new one) and \<open>AList.delete\<close> is \<^verbatim>\<open>del\<close>.
\<close>

datatype direction = ACROSS | DOWN

record variable =
  var_i :: nat
  var_j :: nat
  var_direction :: direction
  var_length :: nat

text \<open>
  The table \<^verbatim>\<open>overlaps\<close> is a dictionary keyed by pairs of variables: \<open>None\<close> is a missing
  key, \<open>Some None\<close> is the stored value \<^verbatim>\<open>None\<close> (no shared cell) and
  \<open>Some (Some (i, j))\<close> is the stored pair of character indices.
\<close>

record crossword =
  variables :: "variable list"
  words :: "string list"
  overlaps :: "variable \<times> variable \<Rightarrow> (nat \<times> nat) option option"

type_synonym domains = "(variable \<times> string list) list"
type_synonym assignment = "(variable \<times> string) list"
type_synonym arc = "variable \<times> variable"

datatype error = KeyError | IndexError | ValueError | TypeError

text \<open>
  Modelled from the spec: the method \<^verbatim>\<open>neighbors\<close> of the crossword object, whose module is
  not part of the sources at hand. A slot \<open>y\<close> of the puzzle is a neighbor of \<open>x\<close> iff the
  overlap of \<open>x\<close> and \<open>y\<close> is not \<^verbatim>\<open>None\<close>.
\<close>

definition neighbors :: "crossword \<Rightarrow> variable \<Rightarrow> variable list" where
  "neighbors cw var =
     filter (\<lambda>v. case overlaps cw (var, v) of Some (Some ij) \<Rightarrow> True | _ \<Rightarrow> False)
       (variables cw)"

text \<open>The constructor: every variable starts with a copy of the whole vocabulary.\<close>

definition init_domains :: "crossword \<Rightarrow> domains" where
  "init_domains cw = map (\<lambda>var. (var, words cw)) (variables cw)"

section \<open>Node consistency\<close>

definition enforce_node_consistency :: "domains \<Rightarrow> domains" where
  "enforce_node_consistency d =
     map (\<lambda>(variable, ws). (variable, filter (\<lambda>word. length word = var_length variable) ws)) d"

section \<open>Arc consistency\<close>

text \<open>
  \<^verbatim>\<open>any(word_x[i] == word_y[j] for word_y in self.domains[y])\<close>: the generator stops at the
  first match; an index out of range raises.
\<close>

fun has_overlap :: "nat \<Rightarrow> nat \<Rightarrow> string \<Rightarrow> string list \<Rightarrow> error + bool" where
  "has_overlap i j word_x [] = Inr False"
| "has_overlap i j word_x (word_y # rest) =
     (if length word_x \<le> i then Inl IndexError
      else if length word_y \<le> j then Inl IndexError
      else if word_x ! i = word_y ! j then Inr True
      else has_overlap i j word_x rest)"

text \<open>
  The loop of \<^verbatim>\<open>revise\<close> over a copy of the domain of \<open>x\<close>. The domain store is
  threaded through, since the domain of \<open>y\<close> is read anew for every word.
\<close>

fun revise_words ::
  "variable \<Rightarrow> variable \<Rightarrow> nat \<Rightarrow> nat \<Rightarrow> string list \<Rightarrow> domains \<Rightarrow> bool \<Rightarrow> error + (bool \<times> domains)"
where
  "revise_words x y i j [] d revised = Inr (revised, d)"
| "revise_words x y i j (word_x # rest) d revised =
     (case map_of d y of
        None \<Rightarrow> Inl KeyError
      | Some dy \<Rightarrow>
          (case has_overlap i j word_x dy of
             Inl e \<Rightarrow> Inl e
           | Inr True \<Rightarrow> revise_words x y i j rest d revised
           | Inr False \<Rightarrow>
               (case map_of d x of
                  None \<Rightarrow> Inl KeyError
                | Some dx \<Rightarrow>
                    if word_x \<in> set dx
                    then revise_words x y i j rest (AList.update x (removeAll word_x dx) d) True
                    else Inl KeyError)))"

definition revise :: "crossword \<Rightarrow> variable \<Rightarrow> variable \<Rightarrow> domains \<Rightarrow> error + (bool \<times> domains)" where
  "revise cw x y d =
     (case overlaps cw (x, y) of
        None \<Rightarrow> Inl KeyError
      | Some None \<Rightarrow> Inr (False, d)
      | Some (Some (i, j)) \<Rightarrow>
          (case map_of d x of
             None \<Rightarrow> Inl KeyError
           | Some dx \<Rightarrow> revise_words x y i j dx d False))"

text \<open>All arcs of the problem, in the order the generator of \<^verbatim>\<open>ac3\<close> yields them.\<close>

definition all_arcs :: "crossword \<Rightarrow> arc list" where
  "all_arcs cw = concat (map (\<lambda>var. map (\<lambda>neighbor. (var, neighbor)) (neighbors cw var)) (variables cw))"

text \<open>
  One iteration of the \<^verbatim>\<open>while arcs:\<close> loop. The name \<^verbatim>\<open>deque\<close> is not imported by
  \<^verbatim>\<open>generate.py\<close> itself; it is taken to be \<^verbatim>\<open>collections.deque\<close>, reaching the module
  through \<^verbatim>\<open>from crossword import *\<close>. The deque is a list in deque order: \<^verbatim>\<open>pop\<close>
  takes the last element and \<^verbatim>\<open>append\<close> adds at the end.
\<close>

datatype ac3_step_result =
  Continue "arc list" domains
| Return "error + (bool \<times> domains)"

definition ac3_step :: "crossword \<Rightarrow> arc list \<Rightarrow> domains \<Rightarrow> ac3_step_result" where
  "ac3_step cw arcs d =
     (if arcs = [] then Return (Inr (True, d))
      else
        (case last arcs of (x, y) \<Rightarrow>
          (case revise cw x y d of
             Inl e \<Rightarrow> Return (Inl e)
           | Inr (revised, d') \<Rightarrow>
               if revised then
                 (case map_of d' x of
                    None \<Rightarrow> Return (Inl KeyError)
                  | Some dx \<Rightarrow>
                      if length dx = 0 then Return (Inr (False, d'))
                      else Continue
                        (butlast arcs @ map (\<lambda>z. (z, x)) (filter (\<lambda>z. z \<noteq> y) (neighbors cw x))) d')
               else Continue (butlast arcs) d')))"

text \<open>The size of a domain store: the number of candidate words it holds.\<close>

definition domains_size :: "domains \<Rightarrow> nat" where
  "domains_size d = sum_list (map (\<lambda>(v, ws). length ws) d)"

lemma domains_size_update:
  "map_of d x = Some dx \<Longrightarrow>
     domains_size (AList.update x ws d) + length dx = domains_size d + length ws"
  by (induction d) (auto simp: domains_size_def)

lemma length_removeAll_less: "w \<in> set xs \<Longrightarrow> length (removeAll w xs) < length xs"
  by (induction xs) (auto simp: less_Suc_eq_le)

lemma revise_words_size:
  "revise_words x y i j ws d rv = Inr (r, d') \<Longrightarrow>
     domains_size d' \<le> domains_size d \<and> (rv \<longrightarrow> r) \<and>
     (\<not> rv \<and> r \<longrightarrow> domains_size d' < domains_size d) \<and> (\<not> r \<longrightarrow> d' = d)"
proof (induction ws arbitrary: d rv)
  case Nil
  then show ?case by simp
next
  case (Cons w ws)
  show ?case
  proof (cases "map_of d y")
    case None
    with Cons.prems show ?thesis by simp
  next
    case (Some dy)
    show ?thesis
    proof (cases "has_overlap i j w dy")
      case (Inl e)
      with Cons.prems Some show ?thesis by simp
    next
      case (Inr b)
      show ?thesis
      proof (cases b)
        case True
        with Cons.prems Some Inr have "revise_words x y i j ws d rv = Inr (r, d')" by simp
        from Cons.IH[OF this] show ?thesis .
      next
        case False
        with Cons.prems Some Inr obtain dx where dx: "map_of d x = Some dx" "w \<in> set dx"
          and run: "revise_words x y i j ws (AList.update x (removeAll w dx) d) True = Inr (r, d')"
          by (auto split: option.splits if_splits)
        from Cons.IH[OF run]
        have le: "domains_size d' \<le> domains_size (AList.update x (removeAll w dx) d)"
          and r: r by auto
        from domains_size_update[OF dx(1), of "removeAll w dx"] length_removeAll_less[OF dx(2)]
        have "domains_size (AList.update x (removeAll w dx) d) < domains_size d" by linarith
        with le r show ?thesis by auto
      qed
    qed
  qed
qed

lemma revise_size:
  "revise cw x y d = Inr (r, d') \<Longrightarrow>
     (r \<longrightarrow> domains_size d' < domains_size d) \<and> (\<not> r \<longrightarrow> d' = d)"
  unfolding revise_def
  by (auto split: option.splits dest: revise_words_size)

lemma ac3_step_decreases:
  "ac3_step cw arcs d = Continue arcs' d' \<Longrightarrow>
     ((d', arcs'), (d, arcs)) \<in> measure domains_size <*lex*> measure length"
  unfolding ac3_step_def
  by (auto split: if_splits prod.splits sum.splits option.splits dest: revise_size)

text \<open>The \<^verbatim>\<open>while arcs:\<close> loop: it runs as long as an iteration asks to continue.\<close>

function ac3_loop :: "crossword \<Rightarrow> arc list \<Rightarrow> domains \<Rightarrow> error + (bool \<times> domains)" where
  "ac3_loop cw arcs d =
     (case ac3_step cw arcs d of
        Return r \<Rightarrow> r
      | Continue arcs' d' \<Rightarrow> ac3_loop cw arcs' d')"
  by pat_completeness auto
termination
  by (relation "inv_image (measure domains_size <*lex*> measure length) (\<lambda>(cw, arcs, d). (d, arcs))")
     (auto dest: ac3_step_decreases)

declare ac3_loop.simps [simp del]

text \<open>
  \<^verbatim>\<open>ac3(arcs=None)\<close>: the test \<^verbatim>\<open>if not arcs\<close> holds for \<^verbatim>\<open>None\<close> and for an empty
  collection alike.
\<close>

definition ac3 :: "crossword \<Rightarrow> arc list option \<Rightarrow> domains \<Rightarrow> error + (bool \<times> domains)" where
  "ac3 cw arcs d =
     (case arcs of
        None \<Rightarrow> ac3_loop cw (all_arcs cw) d
      | Some given \<Rightarrow> if given = [] then ac3_loop cw (all_arcs cw) d else ac3_loop cw given d)"

section \<open>Assignments\<close>

definition assignment_complete :: "crossword \<Rightarrow> assignment \<Rightarrow> bool" where
  "assignment_complete cw a = list_all (\<lambda>var. map_of a var \<noteq> None) (variables cw)"

text \<open>The inner loop of \<^verbatim>\<open>consistent\<close> over the neighbors of one assigned variable.\<close>

fun check_neighbors ::
  "crossword \<Rightarrow> assignment \<Rightarrow> variable \<Rightarrow> string \<Rightarrow> variable list \<Rightarrow> error + bool"
where
  "check_neighbors cw a var word [] = Inr True"
| "check_neighbors cw a var word (neighbor # rest) =
     (case map_of a neighbor of
        None \<Rightarrow> check_neighbors cw a var word rest
      | Some word_n \<Rightarrow>
          (case overlaps cw (var, neighbor) of
             None \<Rightarrow> Inl KeyError
           | Some None \<Rightarrow> Inl TypeError
           | Some (Some (i, j)) \<Rightarrow>
               if length word \<le> i then Inl IndexError
               else if length word_n \<le> j then Inl IndexError
               else if word ! i \<noteq> word_n ! j then Inr False
               else check_neighbors cw a var word rest))"

text \<open>The outer loop of \<^verbatim>\<open>consistent\<close> over the items of the assignment.\<close>

fun consistent_items :: "crossword \<Rightarrow> assignment \<Rightarrow> assignment \<Rightarrow> error + bool" where
  "consistent_items cw a [] = Inr True"
| "consistent_items cw a ((var, word) # rest) =
     (if length word \<noteq> var_length var then Inr False
      else if 1 < count_list (map snd a) word then Inr False
      else
        (case check_neighbors cw a var word (neighbors cw var) of
           Inl e \<Rightarrow> Inl e
         | Inr False \<Rightarrow> Inr False
         | Inr True \<Rightarrow> consistent_items cw a rest))"

definition consistent :: "crossword \<Rightarrow> assignment \<Rightarrow> error + bool" where
  "consistent cw a = consistent_items cw a a"

section \<open>Heuristics\<close>

text \<open>
  The sum of \<^verbatim>\<open>order_domain_values\<close> for one word: the number of neighbors that are not
  in the assignment and whose domain holds the word.
\<close>

fun heuristic :: "domains \<Rightarrow> assignment \<Rightarrow> string \<Rightarrow> variable list \<Rightarrow> error + nat" where
  "heuristic d a word [] = Inr 0"
| "heuristic d a word (neighbor # rest) =
     (if map_of a neighbor \<noteq> None then heuristic d a word rest
      else
        (case map_of d neighbor of
           None \<Rightarrow> Inl KeyError
         | Some dn \<Rightarrow>
             (case heuristic d a word rest of
                Inl e \<Rightarrow> Inl e
              | Inr c \<Rightarrow> Inr ((if word \<in> set dn then 1 else 0) + c))))"

text \<open>The dictionary \<^verbatim>\<open>heuristics\<close>, one entry per word of the domain.\<close>

fun heuristics ::
  "crossword \<Rightarrow> domains \<Rightarrow> assignment \<Rightarrow> variable \<Rightarrow> string list \<Rightarrow> error + (string \<times> nat) list"
where
  "heuristics cw d a var [] = Inr []"
| "heuristics cw d a var (word # rest) =
     (case heuristic d a word (neighbors cw var) of
        Inl e \<Rightarrow> Inl e
      | Inr c \<Rightarrow>
          (case heuristics cw d a var rest of
             Inl e \<Rightarrow> Inl e
           | Inr h \<Rightarrow> Inr ((word, c) # h)))"

text \<open>\<^verbatim>\<open>sorted\<close> is stable, as \<open>sort_key\<close> is.\<close>

definition order_domain_values ::
  "crossword \<Rightarrow> domains \<Rightarrow> variable \<Rightarrow> assignment \<Rightarrow> error + string list"
where
  "order_domain_values cw d var a =
     (case map_of d var of
        None \<Rightarrow> Inl KeyError
      | Some ws \<Rightarrow>
          (case heuristics cw d a var ws of
             Inl e \<Rightarrow> Inl e
           | Inr h \<Rightarrow> Inr (map fst (sort_key snd h))))"

text \<open>
  The key of \<^verbatim>\<open>select_unassigned_variable\<close>: the pair of the domain size and the negated
  number of neighbors; pairs are compared lexicographically.
\<close>

definition select_key :: "crossword \<Rightarrow> domains \<Rightarrow> variable \<Rightarrow> error + (nat \<times> int)" where
  "select_key cw d var =
     (case map_of d var of
        None \<Rightarrow> Inl KeyError
      | Some ws \<Rightarrow> Inr (length ws, - int (length (neighbors cw var))))"

definition key_less :: "nat \<times> int \<Rightarrow> nat \<times> int \<Rightarrow> bool" where
  "key_less k k' = (fst k < fst k' \<or> (fst k = fst k' \<and> snd k < snd k'))"

text \<open>\<^verbatim>\<open>min\<close> keeps the first of the elements with the least key.\<close>

fun min_by_key ::
  "crossword \<Rightarrow> domains \<Rightarrow> variable \<Rightarrow> nat \<times> int \<Rightarrow> variable list \<Rightarrow> error + variable"
where
  "min_by_key cw d best kbest [] = Inr best"
| "min_by_key cw d best kbest (var # rest) =
     (case select_key cw d var of
        Inl e \<Rightarrow> Inl e
      | Inr k \<Rightarrow>
          if key_less k kbest then min_by_key cw d var k rest
          else min_by_key cw d best kbest rest)"

definition unassigned :: "crossword \<Rightarrow> assignment \<Rightarrow> variable list" where
  "unassigned cw a = filter (\<lambda>var. map_of a var = None) (variables cw)"

definition select_unassigned_variable ::
  "crossword \<Rightarrow> domains \<Rightarrow> assignment \<Rightarrow> error + variable"
where
  "select_unassigned_variable cw d a =
     (case unassigned cw a of
        [] \<Rightarrow> Inl ValueError
      | var # rest \<Rightarrow>
          (case select_key cw d var of
             Inl e \<Rightarrow> Inl e
           | Inr k \<Rightarrow> min_by_key cw d var k rest))"

section \<open>Backtracking search\<close>

text \<open>
  \<^verbatim>\<open>if result:\<close> holds for a dictionary that is not empty; \<^verbatim>\<open>None\<close> and the empty
  dictionary are both false.
\<close>

fun truthy :: "assignment option \<Rightarrow> bool" where
  "truthy None = False"
| "truthy (Some a) = (a \<noteq> [])"

text \<open>
  \<^verbatim>\<open>backtrack\<close> and its loop over the ordered values of the selected variable. The
  assignment is one mutable dictionary: it is passed in and handed back, so that the
  result is the returned value, the assignment as the call leaves it, and the number of
  invocations of \<^verbatim>\<open>backtrack\<close> that the call made (itself included); that number is
  bookkeeping of the model and takes no part in the computation of the other two.
\<close>

function backtrack ::
  "crossword \<Rightarrow> domains \<Rightarrow> assignment \<Rightarrow> error + (assignment option \<times> assignment \<times> nat)"
and try_values ::
  "crossword \<Rightarrow> domains \<Rightarrow> variable \<Rightarrow> string list \<Rightarrow> assignment \<Rightarrow>
     error + (assignment option \<times> assignment \<times> nat)"
where
  "backtrack cw d a =
     (if assignment_complete cw a then Inr (Some a, a, 1)
      else
        (case select_unassigned_variable cw d a of
           Inl e \<Rightarrow> Inl e
         | Inr var \<Rightarrow>
             (case order_domain_values cw d var a of
                Inl e \<Rightarrow> Inl e
              | Inr vals \<Rightarrow>
                  (case try_values cw d var vals a of
                     Inl e \<Rightarrow> Inl e
                   | Inr (result, a', n) \<Rightarrow> Inr (result, a', Suc n)))))"
| "try_values cw d var [] a = Inr (None, a, 0)"
| "try_values cw d var (val # rest) a =
     (case consistent cw (AList.update var val a) of
        Inl e \<Rightarrow> Inl e
      | Inr False \<Rightarrow> try_values cw d var rest (AList.delete var (AList.update var val a))
      | Inr True \<Rightarrow>
          (case backtrack cw d (AList.update var val a) of
             Inl e \<Rightarrow> Inl e
           | Inr (result, a', n) \<Rightarrow>
               if truthy result then Inr (result, a', n)
               else
                 (case try_values cw d var rest (AList.delete var a') of
                    Inl e \<Rightarrow> Inl e
                  | Inr (result', a'', m) \<Rightarrow> Inr (result', a'', n + m))))"
  by pat_completeness auto

text \<open>Termination: every recursive call assigns one more variable of the puzzle.\<close>

lemma min_by_key_mem:
  "min_by_key cw d best kbest rest = Inr v \<Longrightarrow> v = best \<or> v \<in> set rest"
  by (induction rest arbitrary: best kbest) (auto split: sum.splits if_splits)

lemma select_unassigned_variable_mem:
  "select_unassigned_variable cw d a = Inr var \<Longrightarrow> var \<in> set (unassigned cw a)"
  unfolding select_unassigned_variable_def
  by (auto split: list.splits sum.splits dest: min_by_key_mem)

lemma select_unassigned_variable_fresh:
  "select_unassigned_variable cw d a = Inr var \<Longrightarrow>
     var \<in> set (variables cw) \<and> var \<notin> fst ` set a"
  by (drule select_unassigned_variable_mem) (auto simp: unassigned_def map_of_eq_None_iff)

lemma keys_update: "fst ` set (AList.update k v al) = insert k (fst ` set al)"
  by (simp add: dom_update)

lemma keys_delete: "fst ` set (AList.delete k al) = fst ` set al - {k}"
  by (induction al) auto

lemma backtrack_keys_partial:
  "backtrack_try_values_dom (Inl (cw, d, a)) \<Longrightarrow>
     backtrack cw d a = Inr (r, a', n) \<Longrightarrow> fst ` set a \<subseteq> fst ` set a'"
  "backtrack_try_values_dom (Inr (cw, d, var, vals, a)) \<Longrightarrow>
     try_values cw d var vals a = Inr (r, a', n) \<Longrightarrow> fst ` set a \<subseteq> insert var (fst ` set a')"
proof (induct cw d a and cw d var vals a arbitrary: r a' n and r a' n
    rule: backtrack_try_values.pinduct)
  case (1 cw d a)
  show ?case
  proof (cases "assignment_complete cw a")
    case True
    with 1(1,3) show ?thesis by (simp add: backtrack.psimps)
  next
    case False
    with 1(1,3) obtain var vals m where sel: "select_unassigned_variable cw d a = Inr var"
      and ord: "order_domain_values cw d var a = Inr vals"
      and run: "try_values cw d var vals a = Inr (r, a', m)"
      by (auto simp: backtrack.psimps split: sum.splits)
    from 1(2)[OF False sel ord run] select_unassigned_variable_fresh[OF sel]
    show ?thesis by auto
  qed
next
  case (2 cw d var a)
  then show ?case by (auto simp: try_values.psimps)
next
  case (3 cw d var val rest a)
  let ?a1 = "AList.update var val a"
  note run = 3(5)[unfolded try_values.psimps(2)[OF 3(1)]]
  show ?case
  proof (cases "consistent cw ?a1")
    case (Inl e)
    with run show ?thesis by simp
  next
    case (Inr ok)
    show ?thesis
    proof (cases ok)
      case False
      then have okF: "ok = False" by simp
      with run Inr have "try_values cw d var rest (AList.delete var ?a1) = Inr (r, a', n)"
        by simp
      from 3(4)[OF Inr okF this] show ?thesis
        by (auto simp: keys_update keys_delete)
    next
      case True
      then have okT: "ok = True" by simp
      with run Inr obtain r1 a1 n1 where bt: "backtrack cw d ?a1 = Inr (r1, a1, n1)"
        by (auto split: sum.splits)
      from 3(2)[OF Inr okT bt] have sub: "insert var (fst ` set a) \<subseteq> fst ` set a1"
        by (simp add: keys_update)
      show ?thesis
      proof (cases "truthy r1")
        case t: True
        with run Inr True bt have "a' = a1" by simp
        with sub show ?thesis by auto
      next
        case f: False
        with run Inr True bt obtain m where
          "try_values cw d var rest (AList.delete var a1) = Inr (r, a', m)"
          by (auto split: sum.splits)
        from 3(3)[OF Inr okT bt refl refl f this]
        have "fst ` set a1 - {var} \<subseteq> insert var (fst ` set a')"
          by (simp only: keys_delete)
        with sub show ?thesis by blast
      qed
    qed
  qed
qed

definition unassigned_count :: "crossword \<Rightarrow> variable set \<Rightarrow> nat" where
  "unassigned_count cw S = length (filter (\<lambda>v. v \<notin> S) (variables cw))"

lemma unassigned_count_mono: "S \<subseteq> T \<Longrightarrow> unassigned_count cw T \<le> unassigned_count cw S"
proof -
  assume st: "S \<subseteq> T"
  have "filter (\<lambda>v. v \<notin> T) (variables cw) = filter (\<lambda>v. v \<notin> T) (filter (\<lambda>v. v \<notin> S) (variables cw))"
    using st by (auto intro: filter_cong)
  then show ?thesis unfolding unassigned_count_def
    by (metis length_filter_le)
qed

lemma unassigned_count_insert:
  "v \<in> set (variables cw) \<Longrightarrow> v \<notin> S \<Longrightarrow> unassigned_count cw (insert v S) < unassigned_count cw S"
proof -
  assume v: "v \<in> set (variables cw)" "v \<notin> S"
  have eq: "filter (\<lambda>u. u \<notin> insert v S) (variables cw) = filter (\<lambda>u. u \<noteq> v) (filter (\<lambda>u. u \<notin> S) (variables cw))"
    by (auto intro: filter_cong)
  from v have "v \<in> set (filter (\<lambda>u. u \<notin> S) (variables cw))" by simp
  then have "length (filter (\<lambda>u. u \<noteq> v) (filter (\<lambda>u. u \<notin> S) (variables cw))) < length (filter (\<lambda>u. u \<notin> S) (variables cw))"
    by (intro length_filter_less[where x = v]) auto
  with eq show ?thesis unfolding unassigned_count_def by simp
qed

termination backtrack
  apply (relation "inv_image (less_than <*lex*> less_than)
    (\<lambda>x. case x of
        Inl (cw, d, a) \<Rightarrow> (unassigned_count cw (fst ` set a), 0)
      | Inr (cw, d, var, vals, a) \<Rightarrow> (unassigned_count cw (insert var (fst ` set a)), Suc (length vals)))")
  subgoal by (intro wf_inv_image wf_lex_prod wf_less_than)
  subgoal for cw d a var vals
    using select_unassigned_variable_fresh[of cw d a var]
    by (simp add: unassigned_count_insert)
  subgoal by (simp add: keys_update)
  subgoal premises prems for cw d var val rest a b ba x y xa ya
  proof -
    from prems have bt: "backtrack cw d (AList.update var val a) = Inr (x, xa, ya)" by simp
    from backtrack_keys_partial(1)[OF prems(7) bt]
    have "insert var (fst ` set a) \<subseteq> fst ` set xa" by (simp add: keys_update)
    then have "insert var (fst ` set a) \<subseteq> insert var (fst ` set (AList.delete var xa))"
      by (auto simp: keys_delete)
    from unassigned_count_mono[OF this, of cw] show ?thesis by (simp add: le_less)
  qed
  subgoal for cw d var val rest a b
    using arg_cong[of "insert var (fst ` set (AList.delete var (AList.update var val a)))" "insert var (fst ` set a)" "unassigned_count cw"]
    by (auto simp: keys_update keys_delete)
  done

declare backtrack.simps [simp del]

text \<open>
  \<^verbatim>\<open>solve\<close>, run on a domain store: the returned value and the number of invocations of
  \<^verbatim>\<open>backtrack\<close>. The value returned by \<^verbatim>\<open>ac3\<close> is not looked at.
\<close>

definition solve :: "crossword \<Rightarrow> domains \<Rightarrow> error + (assignment option \<times> nat)" where
  "solve cw d =
     (case ac3 cw None (enforce_node_consistency d) of
        Inl e \<Rightarrow> Inl e
      | Inr (ok, d') \<Rightarrow>
          (case backtrack cw d' [] of
             Inl e \<Rightarrow> Inl e
           | Inr (result, a, n) \<Rightarrow> Inr (result, n)))"

section \<open>Predicates of the specification, and a concrete puzzle\<close>

text \<open>
  Two words agree at an overlap \<open>(i, j)\<close> when both indices are in range and the
  characters there are equal; a word of \<open>x\<close> is supported when the domain of \<open>y\<close>
  holds a word it agrees with.
\<close>

definition agree :: "nat \<Rightarrow> nat \<Rightarrow> string \<Rightarrow> string \<Rightarrow> bool" where
  "agree i j w v = (i < length w \<and> j < length v \<and> w ! i = v ! j)"

definition supported :: "domains \<Rightarrow> variable \<Rightarrow> nat \<Rightarrow> nat \<Rightarrow> string \<Rightarrow> bool" where
  "supported d y i j w =
     (case map_of d y of None \<Rightarrow> False | Some dy \<Rightarrow> list_ex (agree i j w) dy)"

text \<open>
  One domain store is below another when both have the same keys in the same order and
  every domain of the first holds only words of the corresponding domain of the second.
\<close>

definition domains_le :: "domains \<Rightarrow> domains \<Rightarrow> bool" where
  "domains_le d' d =
     list_all2 (\<lambda>(x', ws') (x, ws). x' = x \<and> list_all (\<lambda>w. w \<in> set ws) ws') d' d"

text \<open>
  The puzzle of two crossing slots: \<open>slot_A\<close> runs across from the top left cell,
  \<open>slot_B\<close> runs down from the cell to its right; character 1 of \<open>slot_A\<close> is
  character 0 of \<open>slot_B\<close>.
\<close>

definition slot_A :: variable where
  "slot_A = \<lparr>var_i = 0, var_j = 0, var_direction = ACROSS, var_length = 3\<rparr>"

definition slot_B :: variable where
  "slot_B = \<lparr>var_i = 0, var_j = 1, var_direction = DOWN, var_length = 3\<rparr>"

definition crossing :: "variable \<times> variable \<Rightarrow> (nat \<times> nat) option option" where
  "crossing p =
     (if p = (slot_A, slot_B) then Some (Some (1, 0))
      else if p = (slot_B, slot_A) then Some (Some (0, 1))
      else None)"

definition puzzle :: "string list \<Rightarrow> crossword" where
  "puzzle vocabulary = \<lparr>variables = [slot_A, slot_B], words = vocabulary, overlaps = crossing\<rparr>"

text \<open>
  The number that \<^verbatim>\<open>order_domain_values\<close> attaches to a word: how many neighbors of the
  slot are not assigned and hold that very word in their domain.
\<close>

definition lcv_count :: "crossword \<Rightarrow> domains \<Rightarrow> assignment \<Rightarrow> variable \<Rightarrow> string \<Rightarrow> nat" where
  "lcv_count cw d a var word =
     length (filter (\<lambda>neighbor. map_of a neighbor = None \<and>
        (case map_of d neighbor of None \<Rightarrow> False | Some dn \<Rightarrow> word \<in> set dn))
      (neighbors cw var))"

text \<open>
  The overlap table of a puzzle is symmetric, and no slot overlaps itself: if \<open>x\<close> and
  \<open>y\<close> share character \<open>i\<close> of \<open>x\<close> and character \<open>j\<close> of \<open>y\<close>, then they are two slots
  and the table has \<open>(j, i)\<close> for \<open>y\<close> and \<open>x\<close>.
\<close>

definition overlaps_symmetric :: "crossword \<Rightarrow> bool" where
  "overlaps_symmetric cw =
     list_all (\<lambda>x. list_all (\<lambda>y.
        (case overlaps cw (x, y) of
           Some (Some (i, j)) \<Rightarrow> x \<noteq> y \<and> overlaps cw (y, x) = Some (Some (j, i))
         | _ \<Rightarrow> True))
       (variables cw)) (variables cw)"

text \<open>
  The arc from \<open>x\<close> to \<open>y\<close> is consistent in a domain store when every word of the domain
  of \<open>x\<close> is supported by the domain of \<open>y\<close>.
\<close>

definition arc_consistent :: "crossword \<Rightarrow> domains \<Rightarrow> variable \<Rightarrow> variable \<Rightarrow> bool" where
  "arc_consistent cw d x y =
     (case overlaps cw (x, y) of
        Some (Some (i, j)) \<Rightarrow>
          (case map_of d x of None \<Rightarrow> False | Some dx \<Rightarrow> list_all (supported d y i j) dx)
      | _ \<Rightarrow> True)"

text \<open>
  The invariant of the worklist loop: the worklist holds arcs of the puzzle only, and an
  arc of the puzzle that is not on the worklist is consistent.
\<close>

definition ac3_invariant :: "crossword \<Rightarrow> arc list \<Rightarrow> domains \<Rightarrow> bool" where
  "ac3_invariant cw arcs d =
     ((\<forall>(x, y)\<in>set arcs. x \<in> set (variables cw) \<and> y \<in> set (neighbors cw x)) \<and>
      (\<forall>x\<in>set (variables cw). \<forall>y\<in>set (neighbors cw x).
         (x, y) \<in> set arcs \<or> arc_consistent cw d x y))"

text \<open>
  A well-formed puzzle: its slots and its words are sets (no repetition in the iteration
  order), the overlap table is symmetric, and an overlap names character positions that
  exist in both slots.
\<close>

definition overlaps_in_range :: "crossword \<Rightarrow> bool" where
  "overlaps_in_range cw =
     list_all (\<lambda>x. list_all (\<lambda>y.
        (case overlaps cw (x, y) of
           Some (Some (i, j)) \<Rightarrow> i < var_length x \<and> j < var_length y
         | _ \<Rightarrow> True))
       (variables cw)) (variables cw)"

definition well_formed :: "crossword \<Rightarrow> bool" where
  "well_formed cw =
     (distinct (variables cw) \<and> distinct (words cw) \<and> overlaps_symmetric cw \<and> overlaps_in_range cw)"

text \<open>
  A solution of a puzzle: a complete assignment of words of the vocabulary on which
  \<^verbatim>\<open>consistent\<close> returns true.
\<close>

definition solution :: "crossword \<Rightarrow> assignment \<Rightarrow> bool" where
  "solution cw s =
     (assignment_complete cw s \<and> consistent cw s = Inr True \<and>
      list_all (\<lambda>(var, word). word \<in> set (words cw)) s)"

text \<open>
  The domain stores that \<^verbatim>\<open>solve\<close> works on after node consistency: one domain per slot
  of the puzzle, each a set of words of the vocabulary that have the length of the slot.
\<close>

definition domains_ok :: "crossword \<Rightarrow> domains \<Rightarrow> bool" where
  "domains_ok cw d =
     (map fst d = variables cw \<and>
      (\<forall>v ws. map_of d v = Some ws \<longrightarrow>
         distinct ws \<and> (\<forall>w\<in>set ws. length w = var_length v \<and> w \<in> set (words cw))))"

text \<open>The assignments of the search: slots of the puzzle with words of their domains.\<close>

definition assignment_ok :: "crossword \<Rightarrow> domains \<Rightarrow> assignment \<Rightarrow> bool" where
  "assignment_ok cw d a =
     (\<forall>(v, w)\<in>set a. v \<in> set (variables cw) \<and> (\<exists>ws. map_of d v = Some ws \<and> w \<in> set ws))"

text \<open>
  A domain store holds an assignment when it has, for every slot of the puzzle, the
  word that the assignment gives to the slot.
\<close>

definition holds :: "crossword \<Rightarrow> domains \<Rightarrow> assignment \<Rightarrow> bool" where
  "holds cw d s =
     (\<forall>v\<in>set (variables cw). \<exists>w ws. map_of s v = Some w \<and> map_of d v = Some ws \<and> w \<in> set ws)"

text \<open>
  A domain store in which the domain of every slot of the puzzle is the whole vocabulary,
  each domain iterated in an order of its own.
\<close>

definition vocabulary_store :: "crossword \<Rightarrow> domains \<Rightarrow> bool" where
  "vocabulary_store cw d =
     (map fst d = variables cw \<and>
      list_all (\<lambda>(v, ws). distinct ws \<and> list_all (\<lambda>w. w \<in> set (words cw)) ws \<and>
         list_all (\<lambda>w. w \<in> set ws) (words cw)) d)"

section \<open>Arc consistency: the worklist loop\<close>

lemma ac3_step_wf:
  "wf {((arcs', d'), (arcs, d)). ac3_step cw arcs d = Continue arcs' d'}"
proof (rule wf_subset)
  show "wf (inv_image (measure domains_size <*lex*> measure length) (\<lambda>(arcs, d). (d, arcs)))"
    by (intro wf_inv_image wf_lex_prod wf_measure)
  show "{((arcs', d'), (arcs, d)). ac3_step cw arcs d = Continue arcs' d'}
      \<subseteq> inv_image (measure domains_size <*lex*> measure length) (\<lambda>(arcs, d). (d, arcs))"
    using ac3_step_decreases by (auto simp del: in_lex_prod)
qed

text \<open>
  Claim C6. The worklist loop of \<^verbatim>\<open>ac3\<close> cannot run forever: there is no infinite
  sequence of worklists and domain stores in which every iteration of the loop asks for
  another one. (An iteration either shrinks the domain store, or leaves it as it is and
  shortens the worklist.)
\<close>

theorem ac3_no_infinite_run_C6:
  "\<not> (\<exists>run. \<forall>n. ac3_step cw (fst (run n)) (snd (run n)) =
       Continue (fst (run (Suc n))) (snd (run (Suc n))))"
proof
  assume "\<exists>run. \<forall>n. ac3_step cw (fst (run n)) (snd (run n)) =
    Continue (fst (run (Suc n))) (snd (run (Suc n)))"
  then obtain run where run:
    "\<And>n. ac3_step cw (fst (run n)) (snd (run n)) = Continue (fst (run (Suc n))) (snd (run (Suc n)))"
    by blast
  have "\<forall>n. (run (Suc n), run n) \<in>
      {((arcs', d'), (arcs, d)). ac3_step cw arcs d = Continue arcs' d'}"
  proof
    fix n
    from run[of n] show "(run (Suc n), run n) \<in>
        {((arcs', d'), (arcs, d)). ac3_step cw arcs d = Continue arcs' d'}"
      by (cases "run n"; cases "run (Suc n)") simp
  qed
  with ac3_step_wf[of cw] show False
    unfolding wf_iff_no_infinite_down_chain by blast
qed

section \<open>Domains only shrink, and what a revision removes\<close>

lemma slot_A_neq_slot_B: "slot_A \<noteq> slot_B"
  by (simp add: slot_A_def slot_B_def)

lemma has_overlap_iff:
  "has_overlap i j w dy = Inr b \<Longrightarrow> b = list_ex (agree i j w) dy"
  by (induction dy) (auto simp: agree_def split: if_splits)

lemma domains_le_refl: "domains_le d d"
  unfolding domains_le_def by (induction d) (auto simp: list_all_iff)

lemma domains_le_trans: "domains_le d'' d' \<Longrightarrow> domains_le d' d \<Longrightarrow> domains_le d'' d"
  unfolding domains_le_def
  by (erule (1) list_all2_trans[rotated]) (auto simp: list_all_iff)

lemma domains_le_update:
  "map_of d x = Some dx \<Longrightarrow> set ws \<subseteq> set dx \<Longrightarrow> domains_le (AList.update x ws d) d"
  unfolding domains_le_def
  by (induction d) (auto simp: list_all_iff domains_le_refl[unfolded domains_le_def list_all_iff])

lemma domains_le_keys: "domains_le d' d \<Longrightarrow> map fst d' = map fst d"
  unfolding domains_le_def
  by (induction d' d rule: list_all2_induct) auto

lemma domains_le_map_of:
  "domains_le d' d \<Longrightarrow> map_of d' x = Some ws' \<Longrightarrow> \<exists>ws. map_of d x = Some ws \<and> set ws' \<subseteq> set ws"
  unfolding domains_le_def
  by (induction d' d rule: list_all2_induct) (auto simp: list_all_iff split: if_splits)

lemma revise_words_le:
  "revise_words x y i j ws d rv = Inr (r, d') \<Longrightarrow> domains_le d' d"
proof (induction ws arbitrary: d rv)
  case Nil
  then show ?case by (simp add: domains_le_refl)
next
  case (Cons w ws)
  from Cons.prems obtain dy b where dy: "map_of d y = Some dy" and b: "has_overlap i j w dy = Inr b"
    by (auto split: option.splits sum.splits)
  show ?case
  proof (cases b)
    case True
    with Cons.prems dy b have "revise_words x y i j ws d rv = Inr (r, d')" by simp
    then show ?thesis by (rule Cons.IH)
  next
    case False
    with Cons.prems dy b obtain dx where dx: "map_of d x = Some dx"
      and run: "revise_words x y i j ws (AList.update x (removeAll w dx) d) True = Inr (r, d')"
      by (auto split: option.splits if_splits)
    from domains_le_update[OF dx, of "removeAll w dx"]
    have "domains_le (AList.update x (removeAll w dx) d) d" by auto
    with Cons.IH[OF run] show ?thesis by (rule domains_le_trans)
  qed
qed

lemma revise_le: "revise cw x y d = Inr (r, d') \<Longrightarrow> domains_le d' d"
  unfolding revise_def
  by (auto split: option.splits simp: domains_le_refl dest: revise_words_le)

lemma ac3_step_le: "ac3_step cw arcs d = Continue arcs' d' \<Longrightarrow> domains_le d' d"
  unfolding ac3_step_def
  by (auto split: if_splits prod.splits sum.splits option.splits dest: revise_le)

lemma ac3_step_return_le: "ac3_step cw arcs d = Return (Inr (r, d')) \<Longrightarrow> domains_le d' d"
  unfolding ac3_step_def
  by (auto split: if_splits prod.splits sum.splits option.splits dest: revise_le simp: domains_le_refl)

lemma ac3_loop_le: "ac3_loop cw arcs d = Inr (r, d') \<Longrightarrow> domains_le d' d"
proof (induction cw arcs d rule: ac3_loop.induct)
  case (1 cw arcs d)
  show ?case
  proof (cases "ac3_step cw arcs d")
    case (Continue arcs1 d1)
    with "1.prems" have "ac3_loop cw arcs1 d1 = Inr (r, d')" by (subst (asm) ac3_loop.simps) simp
    from "1.IH"[OF Continue this] ac3_step_le[OF Continue] show ?thesis
      by (rule domains_le_trans)
  next
    case (Return res)
    with "1.prems" have "res = Inr (r, d')" by (subst (asm) ac3_loop.simps) simp
    with Return show ?thesis by (auto dest: ac3_step_return_le)
  qed
qed

lemma ac3_le: "ac3 cw arcs d = Inr (r, d') \<Longrightarrow> domains_le d' d"
  unfolding ac3_def by (auto split: option.splits if_splits dest: ac3_loop_le)

lemma enforce_node_consistency_le: "domains_le (enforce_node_consistency d) d"
  unfolding domains_le_def enforce_node_consistency_def
  by (induction d) (auto simp: list_all_iff)

text \<open>
  Claim C5. After \<^verbatim>\<open>enforce_node_consistency\<close>, and after any call of \<^verbatim>\<open>ac3\<close> that
  returns (with any arc seed, whatever it returns), the domain store has the keys it had
  and every slot's domain is a subset of that slot's domain before the call.
\<close>

theorem domain_monotonicity_C5:
  "(map fst (enforce_node_consistency d) = map fst d \<and>
    (\<forall>x ws'. map_of (enforce_node_consistency d) x = Some ws' \<longrightarrow>
       (\<exists>ws. map_of d x = Some ws \<and> set ws' \<subseteq> set ws))) \<and>
   (\<forall>r d'. ac3 cw arcs d = Inr (r, d') \<longrightarrow>
      map fst d' = map fst d \<and>
      (\<forall>x ws'. map_of d' x = Some ws' \<longrightarrow> (\<exists>ws. map_of d x = Some ws \<and> set ws' \<subseteq> set ws)))"
  using enforce_node_consistency_le[of d]
  by (auto dest!: ac3_le dest: domains_le_keys domains_le_map_of)

theorem domain_monotonicity_C5_witness:
  "ac3 (puzzle [''CAT'', ''CAR'', ''ARC'', ''TEN'']) None
     [(slot_A, [''CAT'', ''CAR'', ''ARC'', ''TEN'']), (slot_B, [''CAT'', ''CAR'', ''ARC'', ''TEN''])]
     = Inr (True, [(slot_A, [''CAT'', ''CAR'']), (slot_B, [''ARC''])]) \<and>
   map fst [(slot_A, [''CAT'', ''CAR'']), (slot_B, [''ARC''])]
     = map fst [(slot_A, [''CAT'', ''CAR'', ''ARC'', ''TEN'']), (slot_B, [''CAT'', ''CAR'', ''ARC'', ''TEN''])] \<and>
   (\<exists>ws. map_of [(slot_A, [''CAT'', ''CAR'', ''ARC'', ''TEN'']), (slot_B, [''CAT'', ''CAR'', ''ARC'', ''TEN''])] slot_B
      = Some ws \<and> set [''ARC''] \<subseteq> set ws)"
proof -
  have run: "ac3 (puzzle [''CAT'', ''CAR'', ''ARC'', ''TEN'']) None
     [(slot_A, [''CAT'', ''CAR'', ''ARC'', ''TEN'']), (slot_B, [''CAT'', ''CAR'', ''ARC'', ''TEN''])]
     = Inr (True, [(slot_A, [''CAT'', ''CAR'']), (slot_B, [''ARC''])])"
    by code_simp
  have look: "map_of [(slot_A, [''CAT'', ''CAR'']), (slot_B, [''ARC''])] slot_B = Some [''ARC'']"
    using slot_A_neq_slot_B by simp
  from domain_monotonicity_C5[of
      "[(slot_A, [''CAT'', ''CAR'', ''ARC'', ''TEN'']), (slot_B, [''CAT'', ''CAR'', ''ARC'', ''TEN''])]"
      "puzzle [''CAT'', ''CAR'', ''ARC'', ''TEN'']" None] run look
  show ?thesis by blast
qed

lemma supported_update:
  "x \<noteq> y \<Longrightarrow> supported (AList.update x ws d) y i j w = supported d y i j w"
  by (simp add: supported_def update_conv')

lemma map_fst_update_same:
  "map_of d x = Some dx \<Longrightarrow> map fst (AList.update x ws d) = map fst d"
  by (induction d) (auto split: if_splits)

lemma revise_words_spec:
  assumes "x \<noteq> y"
  shows "revise_words x y i j ws d rv = Inr (r, d') \<Longrightarrow> map_of d x = Some dxc \<Longrightarrow>
     map_of d' x = Some (filter (\<lambda>w. \<not> (w \<in> set ws \<and> \<not> supported d y i j w)) dxc) \<and>
     (\<forall>z. z \<noteq> x \<longrightarrow> map_of d' z = map_of d z) \<and>
     r = (rv \<or> (\<exists>w\<in>set ws. \<not> supported d y i j w))"
proof (induction ws arbitrary: d rv dxc)
  case Nil
  then show ?case by simp
next
  case (Cons w ws)
  from Cons.prems obtain dy b where dy: "map_of d y = Some dy" and b: "has_overlap i j w dy = Inr b"
    by (auto split: option.splits sum.splits)
  from has_overlap_iff[OF b] dy have sup: "supported d y i j w = b" by (simp add: supported_def)
  show ?case
  proof (cases b)
    case True
    with Cons.prems dy b have "revise_words x y i j ws d rv = Inr (r, d')" by simp
    from Cons.IH[OF this Cons.prems(2)] sup True show ?thesis
      by (auto intro: filter_cong)
  next
    case False
    let ?d1 = "AList.update x (removeAll w dxc) d"
    from False Cons.prems dy b have run: "revise_words x y i j ws ?d1 True = Inr (r, d')"
      by (auto split: if_splits)
    have d1x: "map_of ?d1 x = Some (removeAll w dxc)" by (simp add: update_conv')
    have d1z: "\<And>z. z \<noteq> x \<Longrightarrow> map_of ?d1 z = map_of d z" by (simp add: update_conv')
    have "filter (\<lambda>u. \<not> (u \<in> set ws \<and> \<not> supported d y i j u)) (removeAll w dxc)
        = filter (\<lambda>u. \<not> (u \<in> set (w # ws) \<and> \<not> supported d y i j u)) dxc"
      using sup False by (induction dxc) auto
    with Cons.IH[OF run d1x] d1z sup False show ?thesis
      by (simp add: supported_update[OF assms])
  qed
qed

lemma revise_spec:
  assumes "x \<noteq> y" and "revise cw x y d = Inr (r, d')" and "overlaps cw (x, y) = Some (Some (i, j))"
  shows "\<exists>dx. map_of d x = Some dx \<and> map_of d' x = Some (filter (supported d y i j) dx) \<and>
     (\<forall>z. z \<noteq> x \<longrightarrow> map_of d' z = map_of d z) \<and>
     r = (\<exists>w\<in>set dx. \<not> supported d y i j w)"
proof -
  from assms(2,3) obtain dx where dx: "map_of d x = Some dx"
    and run: "revise_words x y i j dx d False = Inr (r, d')"
    by (auto simp: revise_def split: option.splits)
  have "filter (\<lambda>w. \<not> (w \<in> set dx \<and> \<not> supported d y i j w)) dx = filter (supported d y i j) dx"
    by (auto intro: filter_cong)
  with revise_words_spec[OF assms(1) run dx] dx show ?thesis by simp
qed

lemma revise_no_overlap: "overlaps cw (x, y) = Some None \<Longrightarrow> revise cw x y d = Inr (False, d)"
  by (simp add: revise_def)




section \<open>The order of the candidate words\<close>

lemma heuristic_count:
  "heuristic d a word ns = Inr c \<Longrightarrow>
     c = length (filter (\<lambda>neighbor. map_of a neighbor = None \<and>
        (case map_of d neighbor of None \<Rightarrow> False | Some dn \<Rightarrow> word \<in> set dn)) ns)"
  by (induction ns arbitrary: c) (auto split: if_splits option.splits sum.splits)

lemma heuristics_map:
  "heuristics cw d a var ws = Inr h \<Longrightarrow> h = map (\<lambda>word. (word, lcv_count cw d a var word)) ws"
  by (induction ws arbitrary: h)
    (auto split: sum.splits simp: lcv_count_def dest: heuristic_count)

lemma order_domain_values_sort:
  assumes "order_domain_values cw d var a = Inr vs"
  shows "\<exists>ws. map_of d var = Some ws \<and>
     vs = map fst (sort_key snd (map (\<lambda>word. (word, lcv_count cw d a var word)) ws))"
  using assms unfolding order_domain_values_def
  by (auto split: option.splits sum.splits dest: heuristics_map)

lemma insort_key_snd_map:
  "insort_key snd (w, f w) (map (\<lambda>u. (u, f u)) xs) = map (\<lambda>u. (u, f u)) (insort_key f w xs)"
  by (induction xs) auto

lemma map_fst_sort_key_snd:
  "map fst (sort_key snd (map (\<lambda>w. (w, f w)) ws)) = sort_key f ws"
proof -
  have "sort_key snd (map (\<lambda>w. (w, f w)) ws) = map (\<lambda>w. (w, f w)) (sort_key f ws)"
    by (induction ws) (auto simp: insort_key_snd_map)
  then show ?thesis by (simp add: comp_def)
qed

lemma order_domain_values_sort_key:
  assumes "order_domain_values cw d var a = Inr vs"
  shows "\<exists>ws. map_of d var = Some ws \<and> vs = sort_key (lcv_count cw d a var) ws"
  using order_domain_values_sort[OF assms] by (simp add: map_fst_sort_key_snd)

text \<open>
  Claim C7. When \<^verbatim>\<open>order_domain_values\<close> returns, it returns exactly the words of the
  slot's domain (each as often as the domain holds it), in ascending order of the number
  of unassigned neighbors whose domain contains the word; so no word has a smaller count
  than the first one.
\<close>

theorem order_domain_values_C7:
  assumes "order_domain_values cw d var a = Inr vs"
  shows "(\<exists>ws. map_of d var = Some ws \<and> mset vs = mset ws) \<and>
    sorted (map (lcv_count cw d a var) vs) \<and>
    (\<forall>w\<in>set vs. lcv_count cw d a var (hd vs) \<le> lcv_count cw d a var w)"
proof -
  from order_domain_values_sort_key[OF assms] obtain ws where ws: "map_of d var = Some ws"
    and vs: "vs = sort_key (lcv_count cw d a var) ws" by blast
  have srt: "sorted (map (lcv_count cw d a var) vs)" unfolding vs by (rule sorted_sort_key)
  have "\<forall>w\<in>set vs. lcv_count cw d a var (hd vs) \<le> lcv_count cw d a var w"
  proof
    fix w assume w: "w \<in> set vs"
    then obtain v rest where c: "vs = v # rest" by (cases vs) auto
    with srt w show "lcv_count cw d a var (hd vs) \<le> lcv_count cw d a var w" by auto
  qed
  with ws vs srt show ?thesis by auto
qed

theorem order_domain_values_C7_witness:
  "order_domain_values (puzzle []) [(slot_A, [''CAT'', ''CAR'', ''ARC'']), (slot_B, [''CAT'', ''ARC''])] slot_A []
     = Inr [''CAR'', ''CAT'', ''ARC''] \<and>
   sorted (map (lcv_count (puzzle []) [(slot_A, [''CAT'', ''CAR'', ''ARC'']), (slot_B, [''CAT'', ''ARC''])] [] slot_A)
     [''CAR'', ''CAT'', ''ARC''])"
proof -
  have run: "order_domain_values (puzzle [])
      [(slot_A, [''CAT'', ''CAR'', ''ARC'']), (slot_B, [''CAT'', ''ARC''])] slot_A []
     = Inr [''CAR'', ''CAT'', ''ARC'']"
    by code_simp
  from order_domain_values_C7[OF run] run show ?thesis by (intro conjI) (elim conjE, assumption)+
qed

section \<open>Backtracking search: restored state and soundness\<close>

lemma update_not_Nil: "AList.update k v al \<noteq> []"
  by (cases al) auto

lemma delete_update_fresh: "k \<notin> fst ` set al \<Longrightarrow> AList.delete k (AList.update k v al) = al"
  by (simp add: delete_update_same)

lemma backtrack_result:
  "backtrack cw d a = Inr (r, a', n) \<Longrightarrow>
     (r = None \<longrightarrow> a' = a) \<and>
     (\<forall>s. r = Some s \<longrightarrow> s = a' \<and> assignment_complete cw s \<and>
        (s = a \<or> (consistent cw s = Inr True \<and> s \<noteq> [])))"
  "try_values cw d var vals a = Inr (r, a', n) \<Longrightarrow> var \<notin> fst ` set a \<Longrightarrow>
     (r = None \<longrightarrow> a' = a) \<and>
     (\<forall>s. r = Some s \<longrightarrow> s = a' \<and> assignment_complete cw s \<and>
        consistent cw s = Inr True \<and> s \<noteq> [])"
proof (induction cw d a and cw d var vals a arbitrary: r a' n and r a' n
    rule: backtrack_try_values.induct)
  case (1 cw d a)
  show ?case
  proof (cases "assignment_complete cw a")
    case True
    with "1.prems" show ?thesis by (auto simp: backtrack.simps)
  next
    case False
    with "1.prems" obtain var vals m where sel: "select_unassigned_variable cw d a = Inr var"
      and ord: "order_domain_values cw d var a = Inr vals"
      and run: "try_values cw d var vals a = Inr (r, a', m)"
      by (auto simp: backtrack.simps split: sum.splits)
    from select_unassigned_variable_fresh[OF sel] have "var \<notin> fst ` set a" by simp
    from "1.IH"[OF False sel ord run this] show ?thesis by blast
  qed
next
  case (2 cw d var a)
  then show ?case by auto
next
  case (3 cw d var val rest a)
  let ?a1 = "AList.update var val a"
  note fresh = "3.prems"(2)
  have del: "AList.delete var ?a1 = a" using fresh by (rule delete_update_fresh)
  show ?case
  proof (cases "consistent cw ?a1")
    case (Inl e)
    with "3.prems"(1) show ?thesis by simp
  next
    case (Inr ok)
    show ?thesis
    proof (cases ok)
      case False
      then have okF: "ok = False" by simp
      with "3.prems"(1) Inr have "try_values cw d var rest (AList.delete var ?a1) = Inr (r, a', n)"
        by simp
      from "3.IH"(3)[OF Inr okF this] fresh del show ?thesis by simp
    next
      case True
      then have okT: "ok = True" by simp
      with "3.prems"(1) Inr obtain r1 a1 n1 where bt: "backtrack cw d ?a1 = Inr (r1, a1, n1)"
        by (auto split: sum.splits)
      note ih1 = "3.IH"(1)[OF Inr okT bt]
      show ?thesis
      proof (cases r1)
        case None
        with ih1 have a1: "a1 = ?a1" by simp
        from None "3.prems"(1) Inr okT bt obtain m where
          run: "try_values cw d var rest (AList.delete var a1) = Inr (r, a', m)"
          by (auto split: sum.splits)
        have nt: "\<not> truthy r1" using None by simp
        from "3.IH"(2)[OF Inr okT bt refl refl nt run] fresh a1 del show ?thesis by simp
      next
        case (Some s)
        with ih1 have s: "s = a1" "assignment_complete cw s"
          "s = ?a1 \<or> (consistent cw s = Inr True \<and> s \<noteq> [])" by auto
        from s(3) Inr okT have ok: "consistent cw s = Inr True \<and> s \<noteq> []"
          by (auto simp: update_not_Nil)
        with Some have "truthy r1" by simp
        with "3.prems"(1) Inr okT bt Some have "r = Some s" "a' = a1" by auto
        with s ok show ?thesis by simp
      qed
    qed
  qed
qed

text \<open>
  Claim C10. When \<^verbatim>\<open>backtrack\<close> returns the failure value, the assignment is, at the
  return, the mapping that was passed in: every entry added on the way has been removed
  again, whether or not it passed the consistency check.
\<close>

theorem backtrack_failure_restores_C10:
  "backtrack cw d a = Inr (None, a', n) \<Longrightarrow> a' = a"
  using backtrack_result(1)[of cw d a None a' n] by simp

theorem backtrack_failure_restores_C10_witness:
  "backtrack (puzzle [''CAT'', ''DOG'']) [(slot_A, [''CAT'', ''DOG'']), (slot_B, [''CAT'', ''DOG''])]
     [(slot_A, ''CAT'')] = Inr (None, [(slot_A, ''CAT'')], 1)"
proof -
  have run: "backtrack (puzzle [''CAT'', ''DOG''])
      [(slot_A, [''CAT'', ''DOG'']), (slot_B, [''CAT'', ''DOG''])] [(slot_A, ''CAT'')]
     = Inr (None, [(slot_A, ''CAT'')], 1)"
    by code_simp
  from backtrack_failure_restores_C10[OF run] run show ?thesis by simp
qed

section \<open>What a consistent assignment is\<close>

lemma check_neighbors_True:
  "check_neighbors cw a var word ns = Inr True \<Longrightarrow> neighbor \<in> set ns \<Longrightarrow>
     map_of a neighbor = Some word_n \<Longrightarrow>
     \<exists>i j. overlaps cw (var, neighbor) = Some (Some (i, j)) \<and>
       i < length word \<and> j < length word_n \<and> word ! i = word_n ! j"
  by (induction ns) (auto split: option.splits if_splits)

lemma consistent_items_True:
  "consistent_items cw a items = Inr True \<Longrightarrow> (var, word) \<in> set items \<Longrightarrow>
     length word = var_length var \<and> count_list (map snd a) word \<le> 1 \<and>
     check_neighbors cw a var word (neighbors cw var) = Inr True"
  by (induction items) (auto split: if_splits sum.splits bool.splits)

lemma count_list_le_1_distinct:
  "(\<And>x. x \<in> set xs \<Longrightarrow> count_list xs x \<le> 1) \<Longrightarrow> distinct xs"
proof (induction xs)
  case Nil
  show ?case by simp
next
  case (Cons y ys)
  from Cons.prems[of y] have "count_list ys y = 0" by simp
  then have y: "y \<notin> set ys" by (simp add: count_list_0_iff)
  have "\<And>x. x \<in> set ys \<Longrightarrow> count_list ys x \<le> 1"
  proof -
    fix x assume x: "x \<in> set ys"
    with Cons.prems[of x] show "count_list ys x \<le> 1" by (simp split: if_splits)
  qed
  from Cons.IH[OF this] y show ?case by simp
qed

lemma consistent_True:
  assumes "consistent cw s = Inr True"
  shows "(\<forall>(var, word)\<in>set s. length word = var_length var) \<and> distinct (map snd s) \<and>
    (\<forall>(x, word_x)\<in>set s. \<forall>y\<in>set (neighbors cw x). \<forall>word_y. map_of s y = Some word_y \<longrightarrow>
       (\<exists>i j. overlaps cw (x, y) = Some (Some (i, j)) \<and>
          i < length word_x \<and> j < length word_y \<and> word_x ! i = word_y ! j))"
proof -
  note items = consistent_items_True[OF assms[unfolded consistent_def]]
  have len: "\<forall>(var, word)\<in>set s. length word = var_length var"
    using items by blast
  have "\<And>w. w \<in> set (map snd s) \<Longrightarrow> count_list (map snd s) w \<le> 1"
  proof -
    fix w assume "w \<in> set (map snd s)"
    then obtain v where "(v, w) \<in> set s" by auto
    from items[OF this] show "count_list (map snd s) w \<le> 1" by simp
  qed
  then have dist: "distinct (map snd s)" by (rule count_list_le_1_distinct)
  have nb: "\<forall>(x, word_x)\<in>set s. \<forall>y\<in>set (neighbors cw x). \<forall>word_y. map_of s y = Some word_y \<longrightarrow>
       (\<exists>i j. overlaps cw (x, y) = Some (Some (i, j)) \<and>
          i < length word_x \<and> j < length word_y \<and> word_x ! i = word_y ! j)"
  proof (intro ballI allI impI, clarify)
    fix x word_x y word_y
    assume "(x, word_x) \<in> set s" "y \<in> set (neighbors cw x)" "map_of s y = Some word_y"
    with items[of x word_x] check_neighbors_True[of cw s x word_x "neighbors cw x" y word_y]
    show "\<exists>i j. overlaps cw (x, y) = Some (Some (i, j)) \<and>
          i < length word_x \<and> j < length word_y \<and> word_x ! i = word_y ! j"
      by blast
  qed
  from len dist nb show ?thesis by blast
qed

lemma solve_result:
  assumes "solve cw d = Inr (Some s, n)"
  shows "assignment_complete cw s \<and> consistent cw s = Inr True"
proof -
  from assms obtain ok d' a where "ac3 cw None (enforce_node_consistency d) = Inr (ok, d')"
    and bt: "backtrack cw d' [] = Inr (Some s, a, n)"
    by (auto simp: solve_def split: sum.splits)
  from backtrack_result(1)[OF bt]
  have c: "assignment_complete cw s" and "s = [] \<or> consistent cw s = Inr True" by auto
  then have "consistent cw s = Inr True" by (auto simp: consistent_def)
  with c show ?thesis by simp
qed

text \<open>
  Claim C1. If \<^verbatim>\<open>solve\<close> returns an assignment, then that assignment gives a word to
  every slot of the puzzle and \<^verbatim>\<open>consistent\<close> returns true on it: every assigned word has
  the length of its slot, the assigned words are pairwise distinct, and an assigned slot
  agrees with each of its assigned neighbors at the characters they share.
\<close>

theorem solve_sound_C1:
  assumes "solve cw d = Inr (Some s, n)"
  shows "(\<forall>var\<in>set (variables cw). \<exists>word. map_of s var = Some word) \<and>
    consistent cw s = Inr True \<and>
    (\<forall>(var, word)\<in>set s. length word = var_length var) \<and> distinct (map snd s) \<and>
    (\<forall>(x, word_x)\<in>set s. \<forall>y\<in>set (neighbors cw x). \<forall>word_y. map_of s y = Some word_y \<longrightarrow>
       (\<exists>i j. overlaps cw (x, y) = Some (Some (i, j)) \<and>
          i < length word_x \<and> j < length word_y \<and> word_x ! i = word_y ! j))"
proof -
  from solve_result[OF assms] have c: "assignment_complete cw s"
    and ok: "consistent cw s = Inr True" by auto
  from c have "\<forall>var\<in>set (variables cw). \<exists>word. map_of s var = Some word"
    by (auto simp: assignment_complete_def list_all_iff)
  with ok consistent_True[OF ok] show ?thesis by blast
qed

theorem solve_sound_C1_witness:
  "solve (puzzle [''CAT'', ''CAR'', ''ARC'', ''TEN'']) (init_domains (puzzle [''CAT'', ''CAR'', ''ARC'', ''TEN'']))
     = Inr (Some [(slot_B, ''ARC''), (slot_A, ''CAT'')], 3) \<and>
   consistent (puzzle [''CAT'', ''CAR'', ''ARC'', ''TEN'']) [(slot_B, ''ARC''), (slot_A, ''CAT'')] = Inr True \<and>
   distinct (map snd [(slot_B, ''ARC''), (slot_A, ''CAT'')])"
proof -
  have run: "solve (puzzle [''CAT'', ''CAR'', ''ARC'', ''TEN''])
      (init_domains (puzzle [''CAT'', ''CAR'', ''ARC'', ''TEN'']))
     = Inr (Some [(slot_B, ''ARC''), (slot_A, ''CAT'')], 3)"
    by code_simp
  note sound = solve_sound_C1[OF run]
  from run sound[THEN conjunct2, THEN conjunct1]
    sound[THEN conjunct2, THEN conjunct2, THEN conjunct2, THEN conjunct1]
  show ?thesis by (intro conjI)
qed

section \<open>Arc consistency: what a successful propagation establishes\<close>

lemma neighbors_iff:
  "y \<in> set (neighbors cw x) \<longleftrightarrow>
     y \<in> set (variables cw) \<and> (\<exists>i j. overlaps cw (x, y) = Some (Some (i, j)))"
  by (auto simp: neighbors_def split: option.splits)

lemma overlaps_symmetricD:
  "overlaps_symmetric cw \<Longrightarrow> x \<in> set (variables cw) \<Longrightarrow> y \<in> set (variables cw) \<Longrightarrow>
     overlaps cw (x, y) = Some (Some (i, j)) \<Longrightarrow> x \<noteq> y \<and> overlaps cw (y, x) = Some (Some (j, i))"
  unfolding overlaps_symmetric_def list_all_iff by fastforce

lemma set_all_arcs:
  "set (all_arcs cw) = {(x, y). x \<in> set (variables cw) \<and> y \<in> set (neighbors cw x)}"
  by (auto simp: all_arcs_def)

lemma ac3_invariant_all_arcs: "ac3_invariant cw (all_arcs cw) d"
  by (auto simp: ac3_invariant_def set_all_arcs)

lemma agree_sym: "agree i j w v \<longleftrightarrow> agree j i v w"
  by (auto simp: agree_def)

lemma supported_cong:
  "map_of d' y = map_of d y \<Longrightarrow> supported d' y i j w = supported d y i j w"
  by (simp add: supported_def)

lemma arc_consistent_cong:
  "map_of d' x = map_of d x \<Longrightarrow> map_of d' y = map_of d y \<Longrightarrow>
     arc_consistent cw d' x y = arc_consistent cw d x y"
proof -
  assume x: "map_of d' x = map_of d x" and y: "map_of d' y = map_of d y"
  have sup: "supported d' y = supported d y"
    by (intro ext) (simp add: supported_def y)
  show ?thesis unfolding arc_consistent_def x sup ..
qed

lemma ac3_step_Continue:
  assumes "ac3_step cw arcs d = Continue arcs' d'" and "last arcs = (x, y)"
  shows "arcs \<noteq> [] \<and> (\<exists>revised. revise cw x y d = Inr (revised, d') \<and>
     (revised \<longrightarrow> arcs' = butlast arcs @ map (\<lambda>z. (z, x)) (filter (\<lambda>z. z \<noteq> y) (neighbors cw x))) \<and>
     (\<not> revised \<longrightarrow> arcs' = butlast arcs))"
proof (cases "arcs = []")
  case True
  with assms show ?thesis by (simp add: ac3_step_def)
next
  case False
  with assms obtain revised d1 where rev: "revise cw x y d = Inr (revised, d1)"
    by (cases "revise cw x y d") (auto simp: ac3_step_def)
  show ?thesis
  proof (cases revised)
    case True
    with assms False rev show ?thesis
      by (auto simp: ac3_step_def split: option.splits if_splits)
  next
    case f: False
    with assms False rev show ?thesis by (auto simp: ac3_step_def)
  qed
qed

lemma ac3_step_invariant:
  assumes sym: "overlaps_symmetric cw"
    and inv: "ac3_invariant cw arcs d"
    and step: "ac3_step cw arcs d = Continue arcs' d'"
  shows "ac3_invariant cw arcs' d'"
proof -
  obtain x y where xy: "last arcs = (x, y)" by (cases "last arcs")
  from ac3_step_Continue[OF step xy] have ne: "arcs \<noteq> []" by simp
  from ne xy have mem: "(x, y) \<in> set arcs" by (metis last_in_set)
  from inv have valid: "\<And>a b. (a, b) \<in> set arcs \<Longrightarrow> a \<in> set (variables cw) \<and> b \<in> set (neighbors cw a)"
    and cover: "\<And>a b. a \<in> set (variables cw) \<Longrightarrow> b \<in> set (neighbors cw a) \<Longrightarrow>
        (a, b) \<in> set arcs \<or> arc_consistent cw d a b"
    unfolding ac3_invariant_def by blast+
  from valid[OF mem] have xv: "x \<in> set (variables cw)" and yn: "y \<in> set (neighbors cw x)" by auto
  from yn obtain i j where yv: "y \<in> set (variables cw)" and ov: "overlaps cw (x, y) = Some (Some (i, j))"
    by (auto simp: neighbors_iff)
  from overlaps_symmetricD[OF sym xv yv ov] have neq: "x \<noteq> y"
    and ovr: "overlaps cw (y, x) = Some (Some (j, i))" by auto
  from ac3_step_Continue[OF step xy] obtain revised where rev: "revise cw x y d = Inr (revised, d')"
    and arcsT: "revised \<Longrightarrow>
        arcs' = butlast arcs @ map (\<lambda>z. (z, x)) (filter (\<lambda>z. z \<noteq> y) (neighbors cw x))"
    and arcsF: "\<not> revised \<Longrightarrow> arcs' = butlast arcs"
    by blast
  from revise_spec[OF neq rev ov] obtain dx where dx: "map_of d x = Some dx"
    and dx': "map_of d' x = Some (filter (supported d y i j) dx)"
    and oth: "\<And>z. z \<noteq> x \<Longrightarrow> map_of d' z = map_of d z"
    and r: "revised = (\<exists>w\<in>set dx. \<not> supported d y i j w)" by blast
  have xy_ok: "arc_consistent cw d' x y"
    using neq by (simp add: arc_consistent_def ov dx' list_all_iff supported_cong[OF oth])
  have split: "\<And>a b. (a, b) \<in> set arcs \<Longrightarrow> (a, b) = (x, y) \<or> (a, b) \<in> set (butlast arcs)"
  proof -
    fix a b assume "(a, b) \<in> set arcs"
    moreover have "arcs = butlast arcs @ [last arcs]" using ne by simp
    ultimately have "(a, b) \<in> set (butlast arcs @ [last arcs])" by simp
    with xy show "(a, b) = (x, y) \<or> (a, b) \<in> set (butlast arcs)" by auto
  qed
  have keep: "set (butlast arcs) \<subseteq> set arcs'" using arcsT arcsF by (cases revised) auto
  have valid': "\<And>a b. (a, b) \<in> set arcs' \<Longrightarrow> a \<in> set (variables cw) \<and> b \<in> set (neighbors cw a)"
  proof -
    fix a b assume ab: "(a, b) \<in> set arcs'"
    show "a \<in> set (variables cw) \<and> b \<in> set (neighbors cw a)"
    proof (cases "(a, b) \<in> set (butlast arcs)")
      case True
      then have "(a, b) \<in> set arcs" by (rule in_set_butlastD)
      then show ?thesis by (rule valid)
    next
      case False
      with ab arcsT arcsF have b: "b = x" and an: "a \<in> set (neighbors cw x)"
        by (cases revised; auto)+
      from an obtain p q where av: "a \<in> set (variables cw)"
        and "overlaps cw (x, a) = Some (Some (p, q))" by (auto simp: neighbors_iff)
      from overlaps_symmetricD[OF sym xv av this(2)] xv av b show ?thesis
        by (auto simp: neighbors_iff)
    qed
  qed
  have cover': "\<And>a b. a \<in> set (variables cw) \<Longrightarrow> b \<in> set (neighbors cw a) \<Longrightarrow>
        (a, b) \<in> set arcs' \<or> arc_consistent cw d' a b"
  proof -
    fix a b assume av: "a \<in> set (variables cw)" and bn: "b \<in> set (neighbors cw a)"
    from bn obtain p q where bv: "b \<in> set (variables cw)"
      and ab: "overlaps cw (a, b) = Some (Some (p, q))" by (auto simp: neighbors_iff)
    from overlaps_symmetricD[OF sym av bv ab] have anb: "a \<noteq> b"
      and ba: "overlaps cw (b, a) = Some (Some (q, p))" by auto
    show "(a, b) \<in> set arcs' \<or> arc_consistent cw d' a b"
    proof (cases "(a, b) \<in> set arcs")
      case True
      from split[OF this] xy_ok keep show ?thesis by auto
    next
      case False
      with cover[OF av bn] have ok: "arc_consistent cw d a b" by simp
      show ?thesis
      proof (cases "b = x")
        case bx: True
        with anb have ax: "a \<noteq> x" by simp
        show ?thesis
        proof (cases revised)
          case False
          with revise_size[OF rev] have "d' = d" by simp
          with ok show ?thesis by simp
        next
          case rv: True
          show ?thesis
          proof (cases "a = y")
            case ay: True
            from ok ay bx ovr obtain dy where dy: "map_of d y = Some dy"
              and all: "\<And>v. v \<in> set dy \<Longrightarrow> supported d x j i v"
              by (auto simp: arc_consistent_def list_all_iff split: option.splits)
            have "\<And>v. v \<in> set dy \<Longrightarrow> supported d' x j i v"
            proof -
              fix v assume v: "v \<in> set dy"
              from all[OF v] dx obtain w where w: "w \<in> set dx" "agree j i v w"
                by (auto simp: supported_def list_ex_iff)
              from w(2) have "agree i j w v" by (simp add: agree_sym)
              with v dy have "supported d y i j w" by (auto simp: supported_def list_ex_iff)
              with w show "supported d' x j i v" by (auto simp: supported_def dx' list_ex_iff)
            qed
            with dy oth[of y] neq ay bx ovr show ?thesis
              by (auto simp: arc_consistent_def list_all_iff)
          next
            case False
            from overlaps_symmetricD[OF sym av bv ab] bx av have "a \<in> set (neighbors cw x)"
              by (auto simp: neighbors_iff)
            with False bx arcsT[OF rv] show ?thesis by auto
          qed
        qed
      next
        case bx: False
        show ?thesis
        proof (cases "a = x")
          case ax: True
          from ok ax ab dx have "list_all (supported d b p q) dx"
            by (simp add: arc_consistent_def)
          then have "list_all (supported d' b p q) (filter (supported d y i j) dx)"
            by (simp add: list_all_iff supported_cong[OF oth[OF bx]])
          with ax ab dx' show ?thesis by (simp add: arc_consistent_def)
        next
          case False
          from arc_consistent_cong[OF oth[OF False] oth[OF bx], of cw] ok show ?thesis by simp
        qed
      qed
    qed
  qed
  from valid' cover' show ?thesis unfolding ac3_invariant_def by blast
qed

lemma ac3_step_return_True:
  "ac3_step cw arcs d = Return (Inr (True, d')) \<Longrightarrow> arcs = [] \<and> d' = d"
  unfolding ac3_step_def
  by (auto split: if_splits prod.splits sum.splits option.splits)

lemma ac3_loop_consistent:
  "overlaps_symmetric cw \<Longrightarrow> ac3_invariant cw arcs d \<Longrightarrow> ac3_loop cw arcs d = Inr (True, d') \<Longrightarrow>
     x \<in> set (variables cw) \<Longrightarrow> y \<in> set (neighbors cw x) \<Longrightarrow> arc_consistent cw d' x y"
proof (induction cw arcs d rule: ac3_loop.induct)
  case (1 cw arcs d)
  show ?case
  proof (cases "ac3_step cw arcs d")
    case (Continue arcs1 d1)
    with "1.prems"(3) have run: "ac3_loop cw arcs1 d1 = Inr (True, d')"
      by (subst (asm) ac3_loop.simps) simp
    from ac3_step_invariant[OF "1.prems"(1,2) Continue] have "ac3_invariant cw arcs1 d1" .
    from "1.IH"[OF Continue "1.prems"(1) this run "1.prems"(4,5)] show ?thesis .
  next
    case (Return res)
    with "1.prems"(3) have "res = Inr (True, d')" by (subst (asm) ac3_loop.simps) simp
    with Return ac3_step_return_True[of cw arcs d d'] have "arcs = []" "d' = d" by auto
    with "1.prems"(2,4,5) show ?thesis by (auto simp: ac3_invariant_def)
  qed
qed

lemma ac3_seed_consistent:
  assumes "overlaps_symmetric cw" and "ac3 cw arcs d = Inr (True, d')"
    and "\<forall>given. arcs = Some given \<longrightarrow> given = [] \<or> ac3_invariant cw given d"
    and "x \<in> set (variables cw)" and "y \<in> set (neighbors cw x)"
  shows "arc_consistent cw d' x y"
proof -
  from assms(2,3) obtain start where "ac3_loop cw start d = Inr (True, d')"
    and "ac3_invariant cw start d"
    by (cases arcs) (auto simp: ac3_def ac3_invariant_all_arcs split: if_splits)
  from ac3_loop_consistent[OF assms(1) this(2,1) assms(4,5)] show ?thesis .
qed

text \<open>
  Claim C2, as the code has it. On a puzzle with a symmetric overlap table, let \<^verbatim>\<open>ac3\<close>
  return true on a call with no arc seed, with an empty seed, or with a seed of arcs of
  the puzzle such that every arc of the puzzle outside the seed is consistent at the
  call. Then for every slot \<open>x\<close> of the puzzle and every neighbor \<open>y\<close> of \<open>x\<close>, with
  overlap \<open>(i, j)\<close>, every word that remains in the domain of \<open>x\<close> has a word remaining
  in the domain of \<open>y\<close> with \<open>w[i] = v[j]\<close>.
\<close>

theorem ac3_arc_consistent_C2:
  assumes "overlaps_symmetric cw" and "ac3 cw arcs d = Inr (True, d')"
    and "\<forall>given. arcs = Some given \<longrightarrow> given = [] \<or> ac3_invariant cw given d"
    and "x \<in> set (variables cw)" and "y \<in> set (neighbors cw x)"
    and "overlaps cw (x, y) = Some (Some (i, j))"
  shows "\<exists>dx. map_of d' x = Some dx \<and>
    (\<forall>w\<in>set dx. \<exists>dy. map_of d' y = Some dy \<and>
       (\<exists>v\<in>set dy. i < length w \<and> j < length v \<and> w ! i = v ! j))"
proof -
  from ac3_seed_consistent[OF assms(1-5)] have "arc_consistent cw d' x y" .
  with assms(6) show ?thesis
    by (auto simp: arc_consistent_def supported_def agree_def list_all_iff list_ex_iff
        split: option.splits)
qed

theorem ac3_arc_consistent_C2_witness:
  "overlaps_symmetric (puzzle [''CAT'', ''CAR'', ''ARC'', ''TEN'']) \<and>
   ac3_invariant (puzzle [''CAT'', ''CAR'', ''ARC'', ''TEN'']) [(slot_B, slot_A)]
     [(slot_A, [''CAT'', ''CAR'']), (slot_B, [''CAT'', ''CAR'', ''ARC'', ''TEN''])] \<and>
   ac3 (puzzle [''CAT'', ''CAR'', ''ARC'', ''TEN'']) (Some [(slot_B, slot_A)])
     [(slot_A, [''CAT'', ''CAR'']), (slot_B, [''CAT'', ''CAR'', ''ARC'', ''TEN''])]
     = Inr (True, [(slot_A, [''CAT'', ''CAR'']), (slot_B, [''ARC''])]) \<and>
   slot_B \<in> set (neighbors (puzzle [''CAT'', ''CAR'', ''ARC'', ''TEN'']) slot_A) \<and>
   (\<exists>dx. map_of [(slot_A, [''CAT'', ''CAR'']), (slot_B, [''ARC''])] slot_A = Some dx \<and>
    (\<forall>w\<in>set dx. \<exists>dy. map_of [(slot_A, [''CAT'', ''CAR'']), (slot_B, [''ARC''])] slot_B = Some dy \<and>
       (\<exists>v\<in>set dy. 1 < length w \<and> 0 < length v \<and> w ! 1 = v ! 0)))"
proof -
  have sym: "overlaps_symmetric (puzzle [''CAT'', ''CAR'', ''ARC'', ''TEN''])" by code_simp
  have inv: "ac3_invariant (puzzle [''CAT'', ''CAR'', ''ARC'', ''TEN'']) [(slot_B, slot_A)]
     [(slot_A, [''CAT'', ''CAR'']), (slot_B, [''CAT'', ''CAR'', ''ARC'', ''TEN''])]"
    by code_simp
  have run: "ac3 (puzzle [''CAT'', ''CAR'', ''ARC'', ''TEN'']) (Some [(slot_B, slot_A)])
     [(slot_A, [''CAT'', ''CAR'']), (slot_B, [''CAT'', ''CAR'', ''ARC'', ''TEN''])]
     = Inr (True, [(slot_A, [''CAT'', ''CAR'']), (slot_B, [''ARC''])])"
    by code_simp
  have seed: "\<forall>given. Some [(slot_B, slot_A)] = Some given \<longrightarrow> given = [] \<or>
      ac3_invariant (puzzle [''CAT'', ''CAR'', ''ARC'', ''TEN'']) given
        [(slot_A, [''CAT'', ''CAR'']), (slot_B, [''CAT'', ''CAR'', ''ARC'', ''TEN''])]"
    using inv by simp
  have x: "slot_A \<in> set (variables (puzzle [''CAT'', ''CAR'', ''ARC'', ''TEN'']))"
    by (simp add: puzzle_def)
  have y: "slot_B \<in> set (neighbors (puzzle [''CAT'', ''CAR'', ''ARC'', ''TEN'']) slot_A)"
    by code_simp
  have ov: "overlaps (puzzle [''CAT'', ''CAR'', ''ARC'', ''TEN'']) (slot_A, slot_B) = Some (Some (1, 0))"
    by (simp add: puzzle_def crossing_def)
  from sym inv run y ac3_arc_consistent_C2[OF sym run seed x y ov] show ?thesis by (intro conjI)
qed

text \<open>
  Claim C2, as stated, fails for a call with an arc seed: seeded with the one arc from
  \<open>slot_A\<close> to \<open>slot_B\<close>, \<^verbatim>\<open>ac3\<close> returns true and leaves the word CAT in the domain of
  \<open>slot_B\<close>, although no word in the domain of \<open>slot_A\<close> has its character 1 equal to
  character 0 of CAT.
\<close>

theorem ac3_seeded_not_arc_consistent_C2:
  "ac3 (puzzle [''CAT'', ''CAR'', ''ARC'', ''TEN'']) (Some [(slot_A, slot_B)])
     [(slot_A, [''CAT'', ''CAR'', ''ARC'', ''TEN'']), (slot_B, [''CAT'', ''CAR'', ''ARC'', ''TEN''])]
     = Inr (True, [(slot_A, [''CAT'', ''CAR'']), (slot_B, [''CAT'', ''CAR'', ''ARC'', ''TEN''])]) \<and>
   slot_B \<in> set (variables (puzzle [''CAT'', ''CAR'', ''ARC'', ''TEN''])) \<and>
   slot_A \<in> set (neighbors (puzzle [''CAT'', ''CAR'', ''ARC'', ''TEN'']) slot_B) \<and>
   overlaps (puzzle [''CAT'', ''CAR'', ''ARC'', ''TEN'']) (slot_B, slot_A) = Some (Some (0, 1)) \<and>
   map_of [(slot_A, [''CAT'', ''CAR'']), (slot_B, [''CAT'', ''CAR'', ''ARC'', ''TEN''])] slot_B
     = Some [''CAT'', ''CAR'', ''ARC'', ''TEN''] \<and>
   map_of [(slot_A, [''CAT'', ''CAR'']), (slot_B, [''CAT'', ''CAR'', ''ARC'', ''TEN''])] slot_A
     = Some [''CAT'', ''CAR''] \<and>
   ''CAT'' \<in> set [''CAT'', ''CAR'', ''ARC'', ''TEN''] \<and>
   \<not> list_ex (\<lambda>v. 0 < length ''CAT'' \<and> 1 < length v \<and> ''CAT'' ! 0 = v ! 1) [''CAT'', ''CAR'']"
  by (intro conjI; code_simp)

text \<open>
  Claim C9. Calling \<^verbatim>\<open>ac3\<close> with an explicitly supplied empty collection of arcs behaves
  as calling it with no arcs argument, since the guard tests emptiness and not absence of
  the argument: the worklist is initialised to all neighbor arcs of the puzzle, that is,
  to every pair of a slot of the puzzle and one of its neighbors, and these arcs are
  revised, so that (on a symmetric overlap table) every arc of the puzzle is consistent
  when the call returns true.
\<close>

theorem ac3_empty_arcs_as_no_arcs_C9:
  "ac3 cw (Some []) d = ac3 cw None d \<and>
   ac3 cw (Some []) d = ac3_loop cw (all_arcs cw) d \<and>
   set (all_arcs cw) = {(x, y). x \<in> set (variables cw) \<and> y \<in> set (neighbors cw x)} \<and>
   (overlaps_symmetric cw \<longrightarrow>
      (\<forall>d'. ac3 cw (Some []) d = Inr (True, d') \<longrightarrow>
         (\<forall>x\<in>set (variables cw). \<forall>y\<in>set (neighbors cw x). arc_consistent cw d' x y)))"
proof (intro conjI impI allI ballI)
  show "ac3 cw (Some []) d = ac3 cw None d" by (simp add: ac3_def)
  show "ac3 cw (Some []) d = ac3_loop cw (all_arcs cw) d" by (simp add: ac3_def)
  show "set (all_arcs cw) = {(x, y). x \<in> set (variables cw) \<and> y \<in> set (neighbors cw x)}"
    by (rule set_all_arcs)
next
  fix d' x y
  assume "overlaps_symmetric cw" "ac3 cw (Some []) d = Inr (True, d')"
    "x \<in> set (variables cw)" "y \<in> set (neighbors cw x)"
  then show "arc_consistent cw d' x y" by (intro ac3_seed_consistent[where arcs = "Some []"]) auto
qed

theorem ac3_empty_arcs_as_no_arcs_C9_witness:
  "overlaps_symmetric (puzzle [''CAT'', ''CAR'', ''ARC'', ''TEN'']) \<and>
   ac3 (puzzle [''CAT'', ''CAR'', ''ARC'', ''TEN'']) (Some [])
     [(slot_A, [''CAT'', ''CAR'', ''ARC'', ''TEN'']), (slot_B, [''CAT'', ''CAR'', ''ARC'', ''TEN''])]
     = Inr (True, [(slot_A, [''CAT'', ''CAR'']), (slot_B, [''ARC''])]) \<and>
   ac3 (puzzle [''CAT'', ''CAR'', ''ARC'', ''TEN'']) (Some [])
     [(slot_A, [''CAT'', ''CAR'', ''ARC'', ''TEN'']), (slot_B, [''CAT'', ''CAR'', ''ARC'', ''TEN''])]
     \<noteq> Inr (True, [(slot_A, [''CAT'', ''CAR'', ''ARC'', ''TEN'']), (slot_B, [''CAT'', ''CAR'', ''ARC'', ''TEN''])]) \<and>
   all_arcs (puzzle [''CAT'', ''CAR'', ''ARC'', ''TEN'']) = [(slot_A, slot_B), (slot_B, slot_A)] \<and>
   arc_consistent (puzzle [''CAT'', ''CAR'', ''ARC'', ''TEN''])
     [(slot_A, [''CAT'', ''CAR'']), (slot_B, [''ARC''])] slot_B slot_A \<and>
   \<not> arc_consistent (puzzle [''CAT'', ''CAR'', ''ARC'', ''TEN''])
     [(slot_A, [''CAT'', ''CAR'', ''ARC'', ''TEN'']), (slot_B, [''CAT'', ''CAR'', ''ARC'', ''TEN''])] slot_B slot_A"
proof -
  have sym: "overlaps_symmetric (puzzle [''CAT'', ''CAR'', ''ARC'', ''TEN''])" by code_simp
  have run: "ac3 (puzzle [''CAT'', ''CAR'', ''ARC'', ''TEN'']) (Some [])
     [(slot_A, [''CAT'', ''CAR'', ''ARC'', ''TEN'']), (slot_B, [''CAT'', ''CAR'', ''ARC'', ''TEN''])]
     = Inr (True, [(slot_A, [''CAT'', ''CAR'']), (slot_B, [''ARC''])])"
    by code_simp
  have changed: "ac3 (puzzle [''CAT'', ''CAR'', ''ARC'', ''TEN'']) (Some [])
     [(slot_A, [''CAT'', ''CAR'', ''ARC'', ''TEN'']), (slot_B, [''CAT'', ''CAR'', ''ARC'', ''TEN''])]
     \<noteq> Inr (True, [(slot_A, [''CAT'', ''CAR'', ''ARC'', ''TEN'']), (slot_B, [''CAT'', ''CAR'', ''ARC'', ''TEN''])])"
    unfolding run by simp
  have arcs: "all_arcs (puzzle [''CAT'', ''CAR'', ''ARC'', ''TEN'']) = [(slot_A, slot_B), (slot_B, slot_A)]"
    by code_simp
  have x: "slot_B \<in> set (variables (puzzle [''CAT'', ''CAR'', ''ARC'', ''TEN'']))"
    by (simp add: puzzle_def)
  have y: "slot_A \<in> set (neighbors (puzzle [''CAT'', ''CAR'', ''ARC'', ''TEN'']) slot_B)"
    by code_simp
  have before: "\<not> arc_consistent (puzzle [''CAT'', ''CAR'', ''ARC'', ''TEN''])
     [(slot_A, [''CAT'', ''CAR'', ''ARC'', ''TEN'']), (slot_B, [''CAT'', ''CAR'', ''ARC'', ''TEN''])] slot_B slot_A"
    by code_simp
  note c9 = ac3_empty_arcs_as_no_arcs_C9[of "puzzle [''CAT'', ''CAR'', ''ARC'', ''TEN'']"
      "[(slot_A, [''CAT'', ''CAR'', ''ARC'', ''TEN'']), (slot_B, [''CAT'', ''CAR'', ''ARC'', ''TEN''])]"]
  from c9[THEN conjunct2, THEN conjunct2, THEN conjunct2, rule_format, OF sym run x y]
  have after: "arc_consistent (puzzle [''CAT'', ''CAR'', ''ARC'', ''TEN''])
     [(slot_A, [''CAT'', ''CAR'']), (slot_B, [''ARC''])] slot_B slot_A" .
  from sym run changed arcs after before show ?thesis by (intro conjI)
qed

section \<open>How ties are broken\<close>

lemma key_less_trans: "key_less a b \<Longrightarrow> key_less b c \<Longrightarrow> key_less a c"
  by (auto simp: key_less_def)

lemma key_less_not_less: "key_less a b \<Longrightarrow> \<not> key_less c b \<Longrightarrow> key_less a c"
  by (auto simp: key_less_def)

lemma min_by_key_first:
  "min_by_key cw d best kbest rest = Inr v \<Longrightarrow>
     (v = best \<and> (\<forall>u\<in>set rest. \<exists>ku. select_key cw d u = Inr ku \<and> \<not> key_less ku kbest)) \<or>
     (\<exists>pre post kv. rest = pre @ v # post \<and> select_key cw d v = Inr kv \<and> key_less kv kbest \<and>
        (\<forall>u\<in>set pre. \<exists>ku. select_key cw d u = Inr ku \<and> key_less kv ku) \<and>
        (\<forall>u\<in>set post. \<exists>ku. select_key cw d u = Inr ku \<and> \<not> key_less ku kv))"
proof (induction rest arbitrary: best kbest)
  case Nil
  then show ?case by simp
next
  case (Cons u rest)
  from Cons.prems obtain ku where ku: "select_key cw d u = Inr ku"
    by (auto split: sum.splits)
  show ?case
  proof (cases "key_less ku kbest")
    case True
    with Cons.prems ku have run: "min_by_key cw d u ku rest = Inr v" by simp
    from Cons.IH[OF run] show ?thesis
    proof (elim disjE conjE exE)
      assume "v = u" and all: "\<forall>w\<in>set rest. \<exists>kw. select_key cw d w = Inr kw \<and> \<not> key_less kw ku"
      then have "u # rest = [] @ v # rest \<and> select_key cw d v = Inr ku \<and> key_less ku kbest \<and>
        (\<forall>w\<in>set []. \<exists>kw. select_key cw d w = Inr kw \<and> key_less ku kw) \<and>
        (\<forall>w\<in>set rest. \<exists>kw. select_key cw d w = Inr kw \<and> \<not> key_less kw ku)"
        using ku True by simp
      then show ?thesis by blast
    next
      fix pre post kv
      assume r: "rest = pre @ v # post" and kv: "select_key cw d v = Inr kv" "key_less kv ku"
        and pre: "\<forall>w\<in>set pre. \<exists>kw. select_key cw d w = Inr kw \<and> key_less kv kw"
        and post: "\<forall>w\<in>set post. \<exists>kw. select_key cw d w = Inr kw \<and> \<not> key_less kw kv"
      from kv True have "key_less kv kbest" by (auto intro: key_less_trans)
      with r kv pre post ku
      have "u # rest = (u # pre) @ v # post \<and> select_key cw d v = Inr kv \<and> key_less kv kbest \<and>
        (\<forall>w\<in>set (u # pre). \<exists>kw. select_key cw d w = Inr kw \<and> key_less kv kw) \<and>
        (\<forall>w\<in>set post. \<exists>kw. select_key cw d w = Inr kw \<and> \<not> key_less kw kv)"
        by (cases ku) auto
      then show ?thesis by blast
    qed
  next
    case False
    with Cons.prems ku have run: "min_by_key cw d best kbest rest = Inr v" by simp
    from Cons.IH[OF run] show ?thesis
    proof (elim disjE conjE exE)
      assume "v = best" and "\<forall>w\<in>set rest. \<exists>kw. select_key cw d w = Inr kw \<and> \<not> key_less kw kbest"
      with ku False show ?thesis by (cases ku) auto
    next
      fix pre post kv
      assume r: "rest = pre @ v # post" and kv: "select_key cw d v = Inr kv" "key_less kv kbest"
        and pre: "\<forall>w\<in>set pre. \<exists>kw. select_key cw d w = Inr kw \<and> key_less kv kw"
        and post: "\<forall>w\<in>set post. \<exists>kw. select_key cw d w = Inr kw \<and> \<not> key_less kw kv"
      from kv(2) False have "key_less kv ku" by (rule key_less_not_less)
      with r kv pre post ku
      have "u # rest = (u # pre) @ v # post \<and> select_key cw d v = Inr kv \<and> key_less kv kbest \<and>
        (\<forall>w\<in>set (u # pre). \<exists>kw. select_key cw d w = Inr kw \<and> key_less kv kw) \<and>
        (\<forall>w\<in>set post. \<exists>kw. select_key cw d w = Inr kw \<and> \<not> key_less kw kv)"
        by (cases ku) auto
      then show ?thesis by blast
    qed
  qed
qed

lemma select_unassigned_variable_first:
  assumes "select_unassigned_variable cw d a = Inr var"
  shows "\<exists>pre post k. unassigned cw a = pre @ var # post \<and> select_key cw d var = Inr k \<and>
     (\<forall>u\<in>set pre. \<exists>ku. select_key cw d u = Inr ku \<and> key_less k ku) \<and>
     (\<forall>u\<in>set post. \<exists>ku. select_key cw d u = Inr ku \<and> \<not> key_less ku k)"
proof -
  from assms obtain v0 rest k0 where un: "unassigned cw a = v0 # rest"
    and k0: "select_key cw d v0 = Inr k0" and run: "min_by_key cw d v0 k0 rest = Inr var"
    by (auto simp: select_unassigned_variable_def split: list.splits sum.splits)
  from min_by_key_first[OF run] show ?thesis
  proof (elim disjE conjE exE)
    assume "var = v0" and "\<forall>u\<in>set rest. \<exists>ku. select_key cw d u = Inr ku \<and> \<not> key_less ku k0"
    with un k0 have "unassigned cw a = [] @ var # rest \<and> select_key cw d var = Inr k0 \<and>
      (\<forall>u\<in>set []. \<exists>ku. select_key cw d u = Inr ku \<and> key_less k0 ku) \<and>
      (\<forall>u\<in>set rest. \<exists>ku. select_key cw d u = Inr ku \<and> \<not> key_less ku k0)" by simp
    then show ?thesis by blast
  next
    fix pre post kv
    assume "rest = pre @ var # post" "select_key cw d var = Inr kv" "key_less kv k0"
      "\<forall>w\<in>set pre. \<exists>kw. select_key cw d w = Inr kw \<and> key_less kv kw"
      "\<forall>w\<in>set post. \<exists>kw. select_key cw d w = Inr kw \<and> \<not> key_less kw kv"
    with un k0 have "unassigned cw a = (v0 # pre) @ var # post \<and> select_key cw d var = Inr kv \<and>
      (\<forall>u\<in>set (v0 # pre). \<exists>ku. select_key cw d u = Inr ku \<and> key_less kv ku) \<and>
      (\<forall>u\<in>set post. \<exists>ku. select_key cw d u = Inr ku \<and> \<not> key_less ku kv)"
      by (cases k0) auto
    then show ?thesis by blast
  qed
qed

lemma heuristic_tie_breaks:
  "(\<forall>var. select_unassigned_variable cw d a = Inr var \<longrightarrow>
      (\<exists>pre post k. unassigned cw a = pre @ var # post \<and> select_key cw d var = Inr k \<and>
         (\<forall>u\<in>set pre. \<exists>ku. select_key cw d u = Inr ku \<and> key_less k ku) \<and>
         (\<forall>u\<in>set post. \<exists>ku. select_key cw d u = Inr ku \<and> \<not> key_less ku k))) \<and>
   (\<forall>var vs. order_domain_values cw d var a = Inr vs \<longrightarrow>
      (\<exists>ws. map_of d var = Some ws \<and>
         (\<forall>c. filter (\<lambda>w. lcv_count cw d a var w = c) vs =
              filter (\<lambda>w. lcv_count cw d a var w = c) ws)))"
proof (intro conjI allI impI)
  fix var assume "select_unassigned_variable cw d a = Inr var"
  then show "\<exists>pre post k. unassigned cw a = pre @ var # post \<and> select_key cw d var = Inr k \<and>
         (\<forall>u\<in>set pre. \<exists>ku. select_key cw d u = Inr ku \<and> key_less k ku) \<and>
         (\<forall>u\<in>set post. \<exists>ku. select_key cw d u = Inr ku \<and> \<not> key_less ku k)"
    by (rule select_unassigned_variable_first)
next
  fix var vs assume "order_domain_values cw d var a = Inr vs"
  from order_domain_values_sort_key[OF this] obtain ws where ws: "map_of d var = Some ws"
    and vs: "vs = sort_key (lcv_count cw d a var) ws" by blast
  have "\<forall>c. filter (\<lambda>w. lcv_count cw d a var w = c) vs =
      filter (\<lambda>w. lcv_count cw d a var w = c) ws"
    unfolding vs by (simp add: sort_key_stable)
  with ws show "\<exists>ws. map_of d var = Some ws \<and>
         (\<forall>c. filter (\<lambda>w. lcv_count cw d a var w = c) vs =
              filter (\<lambda>w. lcv_count cw d a var w = c) ws)" by blast
qed

text \<open>
  Claim C8, as stated, fails: the same puzzle with the same vocabulary, iterated in two
  orders, is solved by two different assignments. That is so when the vocabulary itself
  is iterated in two orders, and also when only the domain of one slot is.
\<close>

theorem solve_depends_on_iteration_order_C8:
  "set [''CAT'', ''CAR'', ''ARC'', ''TEN''] = set [''CAR'', ''CAT'', ''ARC'', ''TEN''] \<and>
   solve (puzzle [''CAT'', ''CAR'', ''ARC'', ''TEN'']) (init_domains (puzzle [''CAT'', ''CAR'', ''ARC'', ''TEN'']))
     = Inr (Some [(slot_B, ''ARC''), (slot_A, ''CAT'')], 3) \<and>
   solve (puzzle [''CAR'', ''CAT'', ''ARC'', ''TEN'']) (init_domains (puzzle [''CAR'', ''CAT'', ''ARC'', ''TEN'']))
     = Inr (Some [(slot_B, ''ARC''), (slot_A, ''CAR'')], 3) \<and>
   vocabulary_store (puzzle [''CAT'', ''CAR'', ''ARC'', ''TEN''])
     [(slot_A, [''CAT'', ''CAR'', ''ARC'', ''TEN'']), (slot_B, [''TEN'', ''ARC'', ''CAT'', ''CAR''])] \<and>
   vocabulary_store (puzzle [''CAT'', ''CAR'', ''ARC'', ''TEN''])
     [(slot_A, [''CAR'', ''CAT'', ''ARC'', ''TEN'']), (slot_B, [''TEN'', ''ARC'', ''CAT'', ''CAR''])] \<and>
   solve (puzzle [''CAT'', ''CAR'', ''ARC'', ''TEN''])
     [(slot_A, [''CAT'', ''CAR'', ''ARC'', ''TEN'']), (slot_B, [''TEN'', ''ARC'', ''CAT'', ''CAR''])]
     = Inr (Some [(slot_B, ''ARC''), (slot_A, ''CAT'')], 3) \<and>
   solve (puzzle [''CAT'', ''CAR'', ''ARC'', ''TEN''])
     [(slot_A, [''CAR'', ''CAT'', ''ARC'', ''TEN'']), (slot_B, [''TEN'', ''ARC'', ''CAT'', ''CAR''])]
     = Inr (Some [(slot_B, ''ARC''), (slot_A, ''CAR'')], 3)"
proof (intro conjI)
  show "set [''CAT'', ''CAR'', ''ARC'', ''TEN''] = set [''CAR'', ''CAT'', ''ARC'', ''TEN'']"
    by auto
qed code_simp+

section \<open>The run of solve on a well-formed puzzle\<close>

lemma overlaps_in_rangeD:
  "overlaps_in_range cw \<Longrightarrow> x \<in> set (variables cw) \<Longrightarrow> y \<in> set (variables cw) \<Longrightarrow>
     overlaps cw (x, y) = Some (Some (i, j)) \<Longrightarrow> i < var_length x \<and> j < var_length y"
  unfolding overlaps_in_range_def list_all_iff by fastforce

lemma domains_ok_lookup:
  "domains_ok cw d \<Longrightarrow> v \<in> set (variables cw) \<Longrightarrow> \<exists>ws. map_of d v = Some ws"
proof -
  assume ok: "domains_ok cw d" and v: "v \<in> set (variables cw)"
  then have "v \<in> fst ` set d" by (metis domains_ok_def set_map)
  then show ?thesis by (cases "map_of d v") (auto simp: map_of_eq_None_iff)
qed

lemma map_of_enforce_node_consistency:
  "map_of (enforce_node_consistency d) v =
     map_option (filter (\<lambda>word. length word = var_length v)) (map_of d v)"
  unfolding enforce_node_consistency_def by (induction d) auto

lemma map_of_init_domains:
  "map_of (init_domains cw) v = (if v \<in> set (variables cw) then Some (words cw) else None)"
  unfolding init_domains_def by (induction "variables cw") (auto simp: map_of_map_restrict)

lemma domains_ok_init:
  assumes "well_formed cw"
  shows "domains_ok cw (enforce_node_consistency (init_domains cw))"
proof -
  have keys: "map fst (enforce_node_consistency (init_domains cw)) = variables cw"
    by (simp add: domains_le_keys[OF enforce_node_consistency_le] init_domains_def comp_def)
  from assms have "distinct (words cw)" by (simp add: well_formed_def)
  with keys show ?thesis
    by (auto simp: domains_ok_def map_of_enforce_node_consistency map_of_init_domains
        split: if_splits)
qed

lemma has_overlap_total:
  "i < length w \<Longrightarrow> \<forall>v\<in>set dy. j < length v \<Longrightarrow> \<exists>b. has_overlap i j w dy = Inr b"
  by (induction dy) auto

lemma revise_words_total:
  assumes "x \<noteq> y" and "map_of d y = Some dy" and "\<forall>v\<in>set dy. j < length v"
  shows "map_of d x = Some dxc \<Longrightarrow> distinct ws \<Longrightarrow> set ws \<subseteq> set dxc \<Longrightarrow>
     \<forall>w\<in>set ws. i < length w \<Longrightarrow> \<exists>r d'. revise_words x y i j ws d rv = Inr (r, d')"
  using assms(2)
proof (induction ws arbitrary: d dxc rv)
  case Nil
  show ?case by simp
next
  case (Cons w ws)
  from Cons.prems(4) have "i < length w" by simp
  from has_overlap_total[OF this assms(3)] obtain b where b: "has_overlap i j w dy = Inr b"
    by blast
  show ?case
  proof (cases b)
    case True
    from Cons.prems have "\<exists>r d'. revise_words x y i j ws d rv = Inr (r, d')"
      by (intro Cons.IH[of d dxc]) auto
    with True b Cons.prems(5) show ?thesis by simp
  next
    case False
    let ?d1 = "AList.update x (removeAll w dxc) d"
    have d1x: "map_of ?d1 x = Some (removeAll w dxc)" by (simp add: update_conv')
    have d1y: "map_of ?d1 y = Some dy" using assms(1) Cons.prems(5) by (simp add: update_conv')
    from Cons.prems have "set ws \<subseteq> set (removeAll w dxc)" "distinct ws" "\<forall>w\<in>set ws. i < length w"
      by auto
    from Cons.IH[OF d1x this(2,1,3) d1y]
    have "\<exists>r d'. revise_words x y i j ws ?d1 True = Inr (r, d')" .
    moreover from Cons.prems have "w \<in> set dxc" by simp
    ultimately show ?thesis using False b Cons.prems(1,5) by simp
  qed
qed

lemma neighbors_well_formed:
  assumes "well_formed cw" and "x \<in> set (variables cw)" and "y \<in> set (neighbors cw x)"
  shows "\<exists>i j. y \<in> set (variables cw) \<and> x \<noteq> y \<and> overlaps cw (x, y) = Some (Some (i, j)) \<and>
     i < var_length x \<and> j < var_length y"
proof -
  from assms(3) obtain i j where y: "y \<in> set (variables cw)"
    and ov: "overlaps cw (x, y) = Some (Some (i, j))" by (auto simp: neighbors_iff)
  from assms(1) have "overlaps_symmetric cw" "overlaps_in_range cw" by (auto simp: well_formed_def)
  from overlaps_symmetricD[OF this(1) assms(2) y ov] overlaps_in_rangeD[OF this(2) assms(2) y ov] y ov
  show ?thesis by blast
qed

lemma revise_total:
  assumes wf: "well_formed cw" and ok: "domains_ok cw d"
    and x: "x \<in> set (variables cw)" and y: "y \<in> set (neighbors cw x)"
  shows "\<exists>r d'. revise cw x y d = Inr (r, d') \<and> domains_ok cw d'"
proof -
  from neighbors_well_formed[OF wf x y] obtain i j where yv: "y \<in> set (variables cw)"
    and neq: "x \<noteq> y" and ov: "overlaps cw (x, y) = Some (Some (i, j))"
    and i: "i < var_length x" and j: "j < var_length y" by blast
  from domains_ok_lookup[OF ok x] obtain dx where dx: "map_of d x = Some dx" by blast
  from domains_ok_lookup[OF ok yv] obtain dy where dy: "map_of d y = Some dy" by blast
  from ok dx i have dxp: "distinct dx" "\<forall>w\<in>set dx. i < length w" by (auto simp: domains_ok_def)
  from ok dy j have dyp: "\<forall>v\<in>set dy. j < length v" by (auto simp: domains_ok_def)
  from revise_words_total[OF neq dy dyp dx dxp(1) subset_refl dxp(2)]
  obtain r d' where run: "revise_words x y i j dx d False = Inr (r, d')" by blast
  with ov dx have rev: "revise cw x y d = Inr (r, d')" by (simp add: revise_def)
  from revise_spec[OF neq rev ov] dx have dx': "map_of d' x = Some (filter (supported d y i j) dx)"
    and oth: "\<And>z. z \<noteq> x \<Longrightarrow> map_of d' z = map_of d z" by auto
  from revise_le[OF rev] have keys: "map fst d' = map fst d" by (rule domains_le_keys)
  have keys': "map fst d' = variables cw" using keys ok by (simp add: domains_ok_def)
  have "distinct ws \<and> (\<forall>w\<in>set ws. length w = var_length v \<and> w \<in> set (words cw))"
    if v: "map_of d' v = Some ws" for v ws
  proof (cases "v = x")
    case True
    with v dx' have "ws = filter (supported d y i j) dx" by simp
    with ok dx True show ?thesis by (auto simp: domains_ok_def)
  next
    case False
    with v oth have "map_of d v = Some ws" by simp
    with ok show ?thesis by (auto simp: domains_ok_def)
  qed
  with keys' have "domains_ok cw d'" unfolding domains_ok_def by blast
  with rev show ?thesis by blast
qed

lemma ac3_step_total:
  assumes wf: "well_formed cw" and ok: "domains_ok cw d" and inv: "ac3_invariant cw arcs d"
  shows "(\<exists>r d'. ac3_step cw arcs d = Return (Inr (r, d')) \<and> domains_ok cw d' \<and>
            (\<not> r \<longrightarrow> (\<exists>x\<in>set (variables cw). map_of d' x = Some []))) \<or>
         (\<exists>arcs' d'. ac3_step cw arcs d = Continue arcs' d' \<and> domains_ok cw d')"
proof (cases "arcs = []")
  case True
  with ok show ?thesis by (auto simp: ac3_step_def)
next
  case False
  obtain x y where xy: "last arcs = (x, y)" by (cases "last arcs")
  from False xy have "(x, y) \<in> set arcs" by (metis last_in_set)
  with inv have x: "x \<in> set (variables cw)" and y: "y \<in> set (neighbors cw x)"
    unfolding ac3_invariant_def by blast+
  from revise_total[OF wf ok x y] obtain r d' where rev: "revise cw x y d = Inr (r, d')"
    and ok': "domains_ok cw d'" by blast
  from domains_ok_lookup[OF ok' x] obtain dx where dx: "map_of d' x = Some dx" by blast
  show ?thesis
  proof (cases r)
    case r: False
    with False xy rev ok' show ?thesis by (auto simp: ac3_step_def)
  next
    case r: True
    show ?thesis
    proof (cases "dx = []")
      case True
      with r False xy rev dx have "ac3_step cw arcs d = Return (Inr (False, d'))"
        by (simp add: ac3_step_def)
      with ok' x dx True show ?thesis by blast
    next
      case ne: False
      with r False xy rev dx ok' show ?thesis by (auto simp: ac3_step_def)
    qed
  qed
qed

lemma ac3_loop_total:
  "well_formed cw \<Longrightarrow> domains_ok cw d \<Longrightarrow> ac3_invariant cw arcs d \<Longrightarrow>
     \<exists>r d'. ac3_loop cw arcs d = Inr (r, d') \<and> domains_ok cw d' \<and>
       (\<not> r \<longrightarrow> (\<exists>x\<in>set (variables cw). map_of d' x = Some []))"
proof (induction cw arcs d rule: ac3_loop.induct)
  case (1 cw arcs d)
  from "1.prems"(1) have sym: "overlaps_symmetric cw" by (simp add: well_formed_def)
  from ac3_step_total[OF "1.prems"] show ?case
  proof (elim disjE exE conjE)
    fix r d'
    assume "ac3_step cw arcs d = Return (Inr (r, d'))" "domains_ok cw d'"
      "\<not> r \<longrightarrow> (\<exists>x\<in>set (variables cw). map_of d' x = Some [])"
    then show ?thesis by (subst ac3_loop.simps) auto
  next
    fix arcs' d'
    assume step: "ac3_step cw arcs d = Continue arcs' d'" and ok': "domains_ok cw d'"
    from ac3_step_invariant[OF sym "1.prems"(3) step] have "ac3_invariant cw arcs' d'" .
    from "1.IH"[OF step "1.prems"(1) ok' this] step show ?thesis
      by (subst ac3_loop.simps) simp
  qed
qed

lemma check_neighbors_total:
  assumes wf: "well_formed cw" and var: "var \<in> set (variables cw)"
    and len: "length word = var_length var"
    and a: "\<forall>(n, wn)\<in>set a. n \<in> set (variables cw) \<and> length wn = var_length n"
  shows "set ns \<subseteq> set (neighbors cw var) \<Longrightarrow> \<exists>b. check_neighbors cw a var word ns = Inr b"
proof (induction ns)
  case Nil
  show ?case by auto
next
  case (Cons n ns)
  then have ih: "\<exists>b. check_neighbors cw a var word ns = Inr b" by simp
  show ?case
  proof (cases "map_of a n")
    case None
    with ih show ?thesis by simp
  next
    case (Some wn)
    then have "(n, wn) \<in> set a" by (rule map_of_SomeD)
    with a have wn: "length wn = var_length n" by auto
    from Cons.prems have "n \<in> set (neighbors cw var)" by simp
    from neighbors_well_formed[OF wf var this] obtain i j where
      "overlaps cw (var, n) = Some (Some (i, j))" "i < var_length var" "j < var_length n"
      by blast
    with Some wn len ih show ?thesis by auto
  qed
qed

lemma consistent_items_total:
  assumes wf: "well_formed cw"
    and a: "\<forall>(n, wn)\<in>set a. n \<in> set (variables cw) \<and> length wn = var_length n"
  shows "set items \<subseteq> set a \<Longrightarrow> \<exists>b. consistent_items cw a items = Inr b"
proof (induction items)
  case Nil
  show ?case by auto
next
  case (Cons item items)
  obtain var word where item: "item = (var, word)" by (cases item)
  from Cons.prems item a have var: "var \<in> set (variables cw)" and len: "length word = var_length var"
    by auto
  from check_neighbors_total[OF wf var len a subset_refl]
  obtain b where b: "check_neighbors cw a var word (neighbors cw var) = Inr b" by blast
  from Cons have "\<exists>b. consistent_items cw a items = Inr b" by simp
  with b item len show ?case by (cases b) auto
qed

lemma assignment_ok_lengths:
  "domains_ok cw d \<Longrightarrow> assignment_ok cw d a \<Longrightarrow>
     \<forall>(n, wn)\<in>set a. n \<in> set (variables cw) \<and> length wn = var_length n"
  unfolding domains_ok_def assignment_ok_def by fastforce

lemma consistent_total:
  "well_formed cw \<Longrightarrow> domains_ok cw d \<Longrightarrow> assignment_ok cw d a \<Longrightarrow> \<exists>b. consistent cw a = Inr b"
  unfolding consistent_def
  by (rule consistent_items_total[OF _ assignment_ok_lengths subset_refl])

lemma select_key_total:
  "domains_ok cw d \<Longrightarrow> v \<in> set (variables cw) \<Longrightarrow> \<exists>k. select_key cw d v = Inr k"
  by (auto simp: select_key_def dest: domains_ok_lookup)

lemma min_by_key_total:
  "domains_ok cw d \<Longrightarrow> set rest \<subseteq> set (variables cw) \<Longrightarrow> \<exists>v. min_by_key cw d best kbest rest = Inr v"
proof (induction rest arbitrary: best kbest)
  case Nil
  show ?case by auto
next
  case (Cons u rest)
  from select_key_total[OF Cons.prems(1), of u] Cons.prems(2) obtain k where
    "select_key cw d u = Inr k" by auto
  with Cons.IH[OF Cons.prems(1)] Cons.prems(2) show ?case by auto
qed

lemma select_unassigned_variable_total:
  assumes "domains_ok cw d" and "\<not> assignment_complete cw a"
  shows "\<exists>var. select_unassigned_variable cw d a = Inr var"
proof -
  from assms(2) obtain v rest where un: "unassigned cw a = v # rest"
    by (cases "unassigned cw a")
      (auto simp: unassigned_def assignment_complete_def list_all_iff filter_empty_conv)
  have "set (unassigned cw a) \<subseteq> set (variables cw)" by (auto simp: unassigned_def)
  with un have sub: "set (v # rest) \<subseteq> set (variables cw)" by simp
  with select_key_total[OF assms(1), of v] obtain k where k: "select_key cw d v = Inr k" by auto
  from min_by_key_total[OF assms(1), of rest v k] sub obtain var where
    "min_by_key cw d v k rest = Inr var" by auto
  with un k show ?thesis by (simp add: select_unassigned_variable_def)
qed

lemma heuristic_total:
  "domains_ok cw d \<Longrightarrow> set ns \<subseteq> set (variables cw) \<Longrightarrow> \<exists>c. heuristic d a word ns = Inr c"
proof (induction ns)
  case Nil
  show ?case by auto
next
  case (Cons n ns)
  from domains_ok_lookup[OF Cons.prems(1), of n] Cons.prems(2) obtain dn where
    "map_of d n = Some dn" by auto
  with Cons show ?case by auto
qed

lemma heuristics_total:
  "domains_ok cw d \<Longrightarrow> \<exists>h. heuristics cw d a var ws = Inr h"
proof (induction ws)
  case Nil
  show ?case by auto
next
  case (Cons w ws)
  have "set (neighbors cw var) \<subseteq> set (variables cw)" by (auto simp: neighbors_def)
  from heuristic_total[OF Cons.prems this] obtain c where
    "heuristic d a w (neighbors cw var) = Inr c" by blast
  with Cons show ?case by auto
qed

lemma order_domain_values_total:
  assumes "domains_ok cw d" and "map_of d var = Some ws"
  shows "\<exists>vs. order_domain_values cw d var a = Inr vs \<and> set vs = set ws"
proof -
  from heuristics_total[OF assms(1)] obtain h where h: "heuristics cw d a var ws = Inr h" by blast
  with assms(2) have run: "order_domain_values cw d var a = Inr (map fst (sort_key snd h))"
    by (simp add: order_domain_values_def)
  from order_domain_values_sort_key[OF run] assms(2)
  have "map fst (sort_key snd h) = sort_key (lcv_count cw d a var) ws" by simp
  with run show ?thesis by simp
qed

lemma update_fresh: "k \<notin> fst ` set al \<Longrightarrow> AList.update k v al = al @ [(k, v)]"
  by (induction al) auto

lemma assignment_ok_update:
  assumes "assignment_ok cw d a" and "var \<in> set (variables cw)" and "var \<notin> fst ` set a"
    and "map_of d var = Some ws" and "val \<in> set ws"
  shows "assignment_ok cw d (AList.update var val a)"
proof -
  from assms(3) have "AList.update var val a = a @ [(var, val)]" by (rule update_fresh)
  with assms(1,2,4,5) show ?thesis by (auto simp: assignment_ok_def)
qed

lemma backtrack_total:
  "well_formed cw \<Longrightarrow> domains_ok cw d \<Longrightarrow> assignment_ok cw d a \<Longrightarrow>
     \<exists>r a' n. backtrack cw d a = Inr (r, a', n) \<and> 0 < n \<and>
       (\<forall>s. r = Some s \<longrightarrow> assignment_ok cw d s)"
  "well_formed cw \<Longrightarrow> domains_ok cw d \<Longrightarrow> assignment_ok cw d a \<Longrightarrow>
     var \<in> set (variables cw) \<Longrightarrow> var \<notin> fst ` set a \<Longrightarrow>
     \<exists>ws. map_of d var = Some ws \<and> set vals \<subseteq> set ws \<Longrightarrow>
     \<exists>r a' n. try_values cw d var vals a = Inr (r, a', n) \<and>
       (\<forall>s. r = Some s \<longrightarrow> assignment_ok cw d s)"
proof (induction cw d a and cw d var vals a rule: backtrack_try_values.induct)
  case (1 cw d a)
  show ?case
  proof (cases "assignment_complete cw a")
    case True
    with "1.prems"(3) show ?thesis by (simp add: backtrack.simps)
  next
    case False
    from select_unassigned_variable_total[OF "1.prems"(2) False] obtain var where
      sel: "select_unassigned_variable cw d a = Inr var" by blast
    from select_unassigned_variable_fresh[OF sel] have var: "var \<in> set (variables cw)"
      and fresh: "var \<notin> fst ` set a" by auto
    from domains_ok_lookup[OF "1.prems"(2) var] obtain ws where ws: "map_of d var = Some ws"
      by blast
    from order_domain_values_total[OF "1.prems"(2) ws] obtain vals where
      ord: "order_domain_values cw d var a = Inr vals" and vals: "set vals = set ws" by blast
    from ws vals have "\<exists>ws. map_of d var = Some ws \<and> set vals \<subseteq> set ws" by auto
    from "1.IH"[OF False sel ord "1.prems" var fresh this] obtain r a' n where
      "try_values cw d var vals a = Inr (r, a', n)" "\<forall>s. r = Some s \<longrightarrow> assignment_ok cw d s"
      by blast
    with False sel ord show ?thesis by (simp add: backtrack.simps)
  qed
next
  case (2 cw d var a)
  show ?case by simp
next
  case (3 cw d var val rest a)
  let ?a1 = "AList.update var val a"
  note wf = "3.prems"(1) and ok = "3.prems"(2) and aok = "3.prems"(3)
    and var = "3.prems"(4) and fresh = "3.prems"(5)
  from "3.prems"(6) obtain ws where ws: "map_of d var = Some ws" and val: "val \<in> set ws"
    and sub: "set rest \<subseteq> set ws" by auto
  from ws sub have dom: "\<exists>ws. map_of d var = Some ws \<and> set rest \<subseteq> set ws" by blast
  have del: "AList.delete var ?a1 = a" using fresh by (rule delete_update_fresh)
  from assignment_ok_update[OF aok var fresh ws val] have a1ok: "assignment_ok cw d ?a1" .
  from consistent_total[OF wf ok a1ok] obtain b where b: "consistent cw ?a1 = Inr b" by blast
  show ?case
  proof (cases b)
    case False
    then have bF: "b = False" by simp
    from "3.IH"(3)[OF b bF wf ok] aok var fresh dom del
    have "\<exists>r a' n. try_values cw d var rest (AList.delete var ?a1) = Inr (r, a', n) \<and>
       (\<forall>s. r = Some s \<longrightarrow> assignment_ok cw d s)" by simp
    with b bF show ?thesis by simp
  next
    case True
    then have bT: "b = True" by simp
    from "3.IH"(1)[OF b bT wf ok a1ok] obtain r1 a1 n1 where
      bt: "backtrack cw d ?a1 = Inr (r1, a1, n1)"
      and r1ok: "\<forall>s. r1 = Some s \<longrightarrow> assignment_ok cw d s" by blast
    show ?thesis
    proof (cases "truthy r1")
      case t: True
      with b bT bt r1ok show ?thesis by simp
    next
      case f: False
      have r1: "r1 = None"
      proof (cases r1)
        case None
        then show ?thesis .
      next
        case (Some s)
        with f have "s = []" by simp
        moreover from backtrack_result(1)[OF bt] Some
        have "s = ?a1 \<or> s \<noteq> []" by blast
        ultimately have "?a1 = []" by simp
        with update_not_Nil[of var val a] show ?thesis by simp
      qed
      with backtrack_result(1)[OF bt] have "a1 = ?a1" by simp
      with del have "AList.delete var a1 = a" by simp
      with "3.IH"(2)[OF b bT bt refl refl f wf ok] aok var fresh dom
      obtain r a' m where "try_values cw d var rest (AList.delete var a1) = Inr (r, a', m)"
        "\<forall>s. r = Some s \<longrightarrow> assignment_ok cw d s" by auto
      with b bT bt f show ?thesis by simp
    qed
  qed
qed

lemma key_less_fst: "\<not> key_less k' k \<Longrightarrow> fst k \<le> fst k'"
  by (auto simp: key_less_def)

lemma key_less_fst': "key_less k k' \<Longrightarrow> fst k \<le> fst k'"
  by (auto simp: key_less_def)

lemma select_smallest_domain:
  assumes sel: "select_unassigned_variable cw d a = Inr var"
    and x: "x \<in> set (variables cw)" "map_of a x = None" and dx: "map_of d x = Some dx"
  shows "\<exists>ws. map_of d var = Some ws \<and> length ws \<le> length dx"
proof -
  from select_unassigned_variable_first[OF sel] obtain pre post k where
    un: "unassigned cw a = pre @ var # post" and k: "select_key cw d var = Inr k"
    and pre: "\<forall>u\<in>set pre. \<exists>ku. select_key cw d u = Inr ku \<and> key_less k ku"
    and post: "\<forall>u\<in>set post. \<exists>ku. select_key cw d u = Inr ku \<and> \<not> key_less ku k"
    by blast
  from k obtain ws where ws: "map_of d var = Some ws" and kf: "fst k = length ws"
    by (auto simp: select_key_def split: option.splits)
  from dx have kx: "select_key cw d x = Inr (length dx, - int (length (neighbors cw x)))"
    by (simp add: select_key_def)
  from x have "x \<in> set (unassigned cw a)" by (simp add: unassigned_def)
  with un have "x \<in> set pre \<or> x = var \<or> x \<in> set post" by auto
  then have "fst k \<le> length dx"
  proof (elim disjE)
    assume "x \<in> set pre"
    with pre kx have "key_less k (length dx, - int (length (neighbors cw x)))" by auto
    from key_less_fst'[OF this] show ?thesis by simp
  next
    assume "x = var"
    with k kx show ?thesis by simp
  next
    assume "x \<in> set post"
    with post kx have "\<not> key_less (length dx, - int (length (neighbors cw x))) k" by auto
    from key_less_fst[OF this] show ?thesis by simp
  qed
  with ws kf show ?thesis by simp
qed

lemma backtrack_empty_domain:
  assumes ok: "domains_ok cw d" and x: "x \<in> set (variables cw)" and dx: "map_of d x = Some []"
  shows "backtrack cw d [] = Inr (None, [], 1)"
proof -
  from x have nc: "\<not> assignment_complete cw []"
    by (auto simp: assignment_complete_def list_all_iff)
  from select_unassigned_variable_total[OF ok nc] obtain var where
    sel: "select_unassigned_variable cw d [] = Inr var" by blast
  from select_smallest_domain[OF sel x _ dx] have ws: "map_of d var = Some []" by simp
  from order_domain_values_total[OF ok ws] have ord: "order_domain_values cw d var [] = Inr []"
    by simp
  from nc sel ord show ?thesis by (simp add: backtrack.simps)
qed

lemma assignment_ok_words:
  "domains_ok cw d \<Longrightarrow> assignment_ok cw d s \<Longrightarrow> list_all (\<lambda>(var, word). word \<in> set (words cw)) s"
  unfolding domains_ok_def assignment_ok_def list_all_iff by fastforce

text \<open>
  Claim C3, as the code has it. On a well-formed puzzle \<^verbatim>\<open>solve\<close> never throws: it runs
  node consistency, then \<^verbatim>\<open>ac3\<close> over all arcs of the problem, and then, whatever \<^verbatim>\<open>ac3\<close>
  returned, the backtracking search on the domain store that \<^verbatim>\<open>ac3\<close> left, whose result it
  returns. So \<^verbatim>\<open>backtrack\<close> is always invoked; when \<^verbatim>\<open>ac3\<close> returned false (a domain
  became empty), that one invocation returns the absence value without trying a word.
  An assignment that \<^verbatim>\<open>solve\<close> returns is a solution; hence, whenever no solution exists,
  \<^verbatim>\<open>solve\<close> returns the absence value.
\<close>

theorem solve_always_searches_C3:
  assumes "well_formed cw"
  shows "\<exists>ok d' result a' n.
    ac3 cw None (enforce_node_consistency (init_domains cw)) = Inr (ok, d') \<and>
    backtrack cw d' [] = Inr (result, a', n) \<and>
    solve cw (init_domains cw) = Inr (result, n) \<and> 0 < n \<and>
    (\<not> ok \<longrightarrow> result = None \<and> n = 1) \<and>
    (\<forall>s. result = Some s \<longrightarrow> solution cw s) \<and>
    ((\<forall>s. \<not> solution cw s) \<longrightarrow> result = None)"
proof -
  let ?d0 = "enforce_node_consistency (init_domains cw)"
  from assms have sym: "overlaps_symmetric cw" by (simp add: well_formed_def)
  from ac3_loop_total[OF assms domains_ok_init[OF assms] ac3_invariant_all_arcs]
  obtain ok d' where loop: "ac3_loop cw (all_arcs cw) ?d0 = Inr (ok, d')"
    and dok: "domains_ok cw d'"
    and empty: "\<not> ok \<longrightarrow> (\<exists>x\<in>set (variables cw). map_of d' x = Some [])" by blast
  from loop have ac: "ac3 cw None ?d0 = Inr (ok, d')" by (simp add: ac3_def)
  have "assignment_ok cw d' []" by (simp add: assignment_ok_def)
  from backtrack_total(1)[OF assms dok this] obtain result a' n where
    bt: "backtrack cw d' [] = Inr (result, a', n)" and n: "0 < n"
    and rok: "\<forall>s. result = Some s \<longrightarrow> assignment_ok cw d' s" by blast
  from ac bt have sv: "solve cw (init_domains cw) = Inr (result, n)" by (simp add: solve_def)
  have fail: "\<not> ok \<longrightarrow> result = None \<and> n = 1"
  proof
    assume "\<not> ok"
    with empty obtain x where "x \<in> set (variables cw)" "map_of d' x = Some []" by blast
    from backtrack_empty_domain[OF dok this] bt show "result = None \<and> n = 1" by simp
  qed
  have sol: "\<forall>s. result = Some s \<longrightarrow> solution cw s"
  proof (intro allI impI)
    fix s assume s: "result = Some s"
    with sv have "solve cw (init_domains cw) = Inr (Some s, n)" by simp
    from solve_result[OF this] assignment_ok_words[OF dok] rok s
    show "solution cw s" by (simp add: solution_def)
  qed
  then have none: "(\<forall>s. \<not> solution cw s) \<longrightarrow> result = None" by (cases result) auto
  from ac bt sv n fail sol none show ?thesis by blast
qed

theorem solve_always_searches_C3_witness:
  "well_formed (puzzle [''CAT'', ''DOG'']) \<and>
   ac3 (puzzle [''CAT'', ''DOG'']) None (enforce_node_consistency (init_domains (puzzle [''CAT'', ''DOG'']))) =
     Inr (False, [(slot_A, [''CAT'', ''DOG'']), (slot_B, [])]) \<and>
   (\<exists>result n. solve (puzzle [''CAT'', ''DOG'']) (init_domains (puzzle [''CAT'', ''DOG''])) = Inr (result, n) \<and>
      0 < n \<and> result = None)"
proof -
  have wf: "well_formed (puzzle [''CAT'', ''DOG''])" by code_simp
  have ac: "ac3 (puzzle [''CAT'', ''DOG'']) None
      (enforce_node_consistency (init_domains (puzzle [''CAT'', ''DOG'']))) =
     Inr (False, [(slot_A, [''CAT'', ''DOG'']), (slot_B, [])])" by code_simp
  from solve_always_searches_C3[OF wf] ac
  have "\<exists>result n. solve (puzzle [''CAT'', ''DOG'']) (init_domains (puzzle [''CAT'', ''DOG''])) = Inr (result, n) \<and>
      0 < n \<and> result = None" by auto
  with wf ac show ?thesis by (intro conjI)
qed

text \<open>
  Claim C3, as stated, fails: on the two crossing slots with the vocabulary CAT, DOG the
  propagation empties the domain of a slot and returns false, and \<^verbatim>\<open>solve\<close> still enters
  the backtracking search: \<^verbatim>\<open>backtrack\<close> is invoked once.
\<close>

theorem solve_does_not_fail_fast_C3:
  "ac3 (puzzle [''CAT'', ''DOG'']) None (enforce_node_consistency (init_domains (puzzle [''CAT'', ''DOG'']))) =
     Inr (False, [(slot_A, [''CAT'', ''DOG'']), (slot_B, [])]) \<and>
   backtrack (puzzle [''CAT'', ''DOG'']) [(slot_A, [''CAT'', ''DOG'']), (slot_B, [])] [] = Inr (None, [], 1) \<and>
   solve (puzzle [''CAT'', ''DOG'']) (init_domains (puzzle [''CAT'', ''DOG''])) = Inr (None, 1)"
proof (intro conjI)
  show "ac3 (puzzle [''CAT'', ''DOG'']) None
      (enforce_node_consistency (init_domains (puzzle [''CAT'', ''DOG'']))) =
     Inr (False, [(slot_A, [''CAT'', ''DOG'']), (slot_B, [])])" by code_simp
  show "backtrack (puzzle [''CAT'', ''DOG'']) [(slot_A, [''CAT'', ''DOG'']), (slot_B, [])] [] =
      Inr (None, [], 1)" by code_simp
  show "solve (puzzle [''CAT'', ''DOG'']) (init_domains (puzzle [''CAT'', ''DOG''])) = Inr (None, 1)"
    by code_simp
qed

section \<open>What does not depend on the iteration order\<close>

lemma check_neighbors_agree:
  "(\<And>n wn. n \<in> set ns \<Longrightarrow> map_of a n = Some wn \<Longrightarrow>
      \<exists>i j. overlaps cw (var, n) = Some (Some (i, j)) \<and>
        i < length word \<and> j < length wn \<and> word ! i = wn ! j) \<Longrightarrow>
   check_neighbors cw a var word ns = Inr True"
proof (induction ns)
  case Nil
  show ?case by simp
next
  case (Cons n ns)
  have ih: "check_neighbors cw a var word ns = Inr True"
    by (rule Cons.IH) (rule Cons.prems, simp_all)
  show ?case
  proof (cases "map_of a n")
    case None
    with ih show ?thesis by simp
  next
    case (Some wn)
    from Cons.prems[of n wn] Some obtain i j where
      "overlaps cw (var, n) = Some (Some (i, j))" "i < length word" "j < length wn"
      "word ! i = wn ! j" by auto
    with Some ih show ?thesis by simp
  qed
qed

lemma distinct_count_list_le_1: "distinct xs \<Longrightarrow> count_list xs x \<le> 1"
  by (induction xs) auto

lemma consistent_items_intro:
  assumes "\<And>var word. (var, word) \<in> set items \<Longrightarrow>
      length word = var_length var \<and> count_list (map snd a) word \<le> 1 \<and>
      check_neighbors cw a var word (neighbors cw var) = Inr True"
  shows "consistent_items cw a items = Inr True"
  using assms
proof (induction items)
  case Nil
  show ?case by simp
next
  case (Cons item items)
  obtain var word where item: "item = (var, word)" by (cases item)
  from Cons.prems[of var word] item have
    "length word = var_length var" "count_list (map snd a) word \<le> 1"
    "check_neighbors cw a var word (neighbors cw var) = Inr True" by auto
  moreover have "consistent_items cw a items = Inr True"
    by (rule Cons.IH) (rule Cons.prems, simp)
  ultimately show ?case using item by simp
qed

text \<open>A part of a consistent assignment is consistent.\<close>

lemma consistent_sub:
  assumes s: "consistent cw s = Inr True" and ds: "distinct (map fst s)"
    and sub: "set a \<subseteq> set s" and da: "distinct (map fst a)"
  shows "consistent cw a = Inr True"
  unfolding consistent_def
proof (rule consistent_items_intro)
  fix var word assume vw: "(var, word) \<in> set a"
  note cs = consistent_True[OF s]
  from cs have len: "\<forall>(v, w)\<in>set s. length w = var_length v"
    and dist: "distinct (map snd s)"
    and nb: "\<forall>(x, word_x)\<in>set s. \<forall>y\<in>set (neighbors cw x). \<forall>word_y. map_of s y = Some word_y \<longrightarrow>
       (\<exists>i j. overlaps cw (x, y) = Some (Some (i, j)) \<and>
          i < length word_x \<and> j < length word_y \<and> word_x ! i = word_y ! j)"
    by blast+
  from vw sub have vws: "(var, word) \<in> set s" by auto
  with len have l: "length word = var_length var" by auto
  from dist have "inj_on snd (set s)" by (simp add: distinct_map)
  from this sub have "inj_on snd (set a)" by (rule inj_on_subset)
  moreover from da have "distinct a" by (simp add: distinct_map)
  ultimately have "distinct (map snd a)" by (simp add: distinct_map)
  then have c: "count_list (map snd a) word \<le> 1" by (rule distinct_count_list_le_1)
  have n: "check_neighbors cw a var word (neighbors cw var) = Inr True"
  proof (rule check_neighbors_agree)
    fix n wn assume n: "n \<in> set (neighbors cw var)" and "map_of a n = Some wn"
    then have "(n, wn) \<in> set a" by (auto dest: map_of_SomeD)
    with sub have "(n, wn) \<in> set s" by auto
    with ds have "map_of s n = Some wn" by simp
    with nb vws n show "\<exists>i j. overlaps cw (var, n) = Some (Some (i, j)) \<and>
        i < length word \<and> j < length wn \<and> word ! i = wn ! j" by blast
  qed
  from l c n show "length word = var_length var \<and> count_list (map snd a) word \<le> 1 \<and>
      check_neighbors cw a var word (neighbors cw var) = Inr True" by simp
qed

lemma revise_keeps_solution:
  assumes wf: "well_formed cw" and s: "consistent cw s = Inr True" and h: "holds cw d s"
    and x: "x \<in> set (variables cw)" and y: "y \<in> set (neighbors cw x)"
    and rev: "revise cw x y d = Inr (r, d')"
  shows "holds cw d' s"
proof -
  from neighbors_well_formed[OF wf x y] obtain i j where yv: "y \<in> set (variables cw)"
    and neq: "x \<noteq> y" and ov: "overlaps cw (x, y) = Some (Some (i, j))" by blast
  from revise_spec[OF neq rev ov] obtain dx where dx: "map_of d x = Some dx"
    and dx': "map_of d' x = Some (filter (supported d y i j) dx)"
    and oth: "\<And>z. z \<noteq> x \<Longrightarrow> map_of d' z = map_of d z" by blast
  from h x dx obtain wx where wx: "map_of s x = Some wx" "wx \<in> set dx"
    by (auto simp: holds_def)
  from h yv obtain wy dy where wy: "map_of s y = Some wy" "map_of d y = Some dy" "wy \<in> set dy"
    by (auto simp: holds_def)
  from wx(1) have "(x, wx) \<in> set s" by (rule map_of_SomeD)
  moreover from consistent_True[OF s]
  have "\<forall>(x, word_x)\<in>set s. \<forall>y\<in>set (neighbors cw x). \<forall>word_y. map_of s y = Some word_y \<longrightarrow>
       (\<exists>i j. overlaps cw (x, y) = Some (Some (i, j)) \<and>
          i < length word_x \<and> j < length word_y \<and> word_x ! i = word_y ! j)" by blast
  ultimately have "\<exists>i' j'. overlaps cw (x, y) = Some (Some (i', j')) \<and>
          i' < length wx \<and> j' < length wy \<and> wx ! i' = wy ! j'"
    using y wy(1) by blast
  with ov have "i < length wx \<and> j < length wy \<and> wx ! i = wy ! j" by simp
  with wy have "supported d y i j wx" by (auto simp: supported_def agree_def list_ex_iff)
  with wx dx' have keep: "\<exists>ws. map_of d' x = Some ws \<and> wx \<in> set ws" by simp
  show ?thesis unfolding holds_def
  proof
    fix v assume v: "v \<in> set (variables cw)"
    show "\<exists>w ws. map_of s v = Some w \<and> map_of d' v = Some ws \<and> w \<in> set ws"
    proof (cases "v = x")
      case True
      with wx keep show ?thesis by auto
    next
      case False
      with h v oth[of v] show ?thesis by (auto simp: holds_def)
    qed
  qed
qed

lemma ac3_step_Return:
  assumes "ac3_step cw arcs d = Return (Inr (r, d'))" and "arcs \<noteq> []" and "last arcs = (x, y)"
  shows "\<exists>revised. revise cw x y d = Inr (revised, d')"
proof (cases "revise cw x y d")
  case (Inl e)
  with assms show ?thesis by (simp add: ac3_step_def)
next
  case (Inr res)
  obtain revised d1 where res: "res = (revised, d1)" by (cases res)
  show ?thesis
  proof (cases revised)
    case True
    with assms Inr res show ?thesis
      by (auto simp: ac3_step_def split: option.splits if_splits)
  next
    case False
    with assms Inr res show ?thesis by (auto simp: ac3_step_def)
  qed
qed

lemma ac3_loop_keeps_solution:
  "well_formed cw \<Longrightarrow> consistent cw s = Inr True \<Longrightarrow> holds cw d s \<Longrightarrow>
     ac3_invariant cw arcs d \<Longrightarrow> ac3_loop cw arcs d = Inr (r, d') \<Longrightarrow> holds cw d' s"
proof (induction cw arcs d rule: ac3_loop.induct)
  case (1 cw arcs d)
  from "1.prems"(1) have sym: "overlaps_symmetric cw" by (simp add: well_formed_def)
  show ?case
  proof (cases "arcs = []")
    case True
    with "1.prems"(5) have "d' = d" by (subst (asm) ac3_loop.simps) (simp add: ac3_step_def)
    with "1.prems"(3) show ?thesis by simp
  next
    case False
    obtain x y where xy: "last arcs = (x, y)" by (cases "last arcs")
    from False xy have "(x, y) \<in> set arcs" by (metis last_in_set)
    with "1.prems"(4) have x: "x \<in> set (variables cw)" and y: "y \<in> set (neighbors cw x)"
      unfolding ac3_invariant_def by blast+
    show ?thesis
    proof (cases "ac3_step cw arcs d")
      case (Continue arcs1 d1)
      from ac3_step_Continue[OF Continue xy] obtain revised where
        "revise cw x y d = Inr (revised, d1)" by blast
      from revise_keeps_solution[OF "1.prems"(1,2,3) x y this] have h1: "holds cw d1 s" .
      from ac3_step_invariant[OF sym "1.prems"(4) Continue] have inv1: "ac3_invariant cw arcs1 d1" .
      from "1.prems"(5) Continue have "ac3_loop cw arcs1 d1 = Inr (r, d')"
        by (subst (asm) ac3_loop.simps) simp
      from "1.IH"[OF Continue "1.prems"(1,2) h1 inv1 this] show ?thesis .
    next
      case (Return res)
      with "1.prems"(5) have res: "res = Inr (r, d')" by (subst (asm) ac3_loop.simps) simp
      with Return ac3_step_Return[OF _ False xy] obtain revised where
        "revise cw x y d = Inr (revised, d')" by blast
      from revise_keeps_solution[OF "1.prems"(1,2,3) x y this] show ?thesis .
    qed
  qed
qed

lemma backtrack_distinct_keys:
  "backtrack cw d a = Inr (Some s, a', n) \<Longrightarrow> distinct (map fst a) \<Longrightarrow> distinct (map fst s)"
  "try_values cw d var vals a = Inr (Some s, a', n) \<Longrightarrow> var \<notin> fst ` set a \<Longrightarrow>
     distinct (map fst a) \<Longrightarrow> distinct (map fst s)"
proof (induction cw d a and cw d var vals a arbitrary: a' n and a' n
    rule: backtrack_try_values.induct)
  case (1 cw d a)
  show ?case
  proof (cases "assignment_complete cw a")
    case True
    with "1.prems" show ?thesis by (auto simp: backtrack.simps)
  next
    case False
    with "1.prems"(1) obtain var vals m where sel: "select_unassigned_variable cw d a = Inr var"
      and ord: "order_domain_values cw d var a = Inr vals"
      and run: "try_values cw d var vals a = Inr (Some s, a', m)"
      by (auto simp: backtrack.simps split: sum.splits)
    from select_unassigned_variable_fresh[OF sel] have "var \<notin> fst ` set a" by simp
    from "1.IH"[OF False sel ord run this "1.prems"(2)] show ?thesis .
  qed
next
  case (2 cw d var a)
  then show ?case by simp
next
  case (3 cw d var val rest a)
  let ?a1 = "AList.update var val a"
  note fresh = "3.prems"(2) and da = "3.prems"(3)
  have del: "AList.delete var ?a1 = a" using fresh by (rule delete_update_fresh)
  have da1: "distinct (map fst ?a1)" using fresh da by (simp add: update_fresh)
  show ?case
  proof (cases "consistent cw ?a1")
    case (Inl e)
    with "3.prems"(1) show ?thesis by simp
  next
    case (Inr ok)
    show ?thesis
    proof (cases ok)
      case False
      then have okF: "ok = False" by simp
      with "3.prems"(1) Inr have "try_values cw d var rest (AList.delete var ?a1) = Inr (Some s, a', n)"
        by simp
      from "3.IH"(3)[OF Inr okF this] fresh da del show ?thesis by simp
    next
      case True
      then have okT: "ok = True" by simp
      with "3.prems"(1) Inr obtain r1 a1 n1 where bt: "backtrack cw d ?a1 = Inr (r1, a1, n1)"
        by (auto split: sum.splits)
      show ?thesis
      proof (cases "truthy r1")
        case t: True
        with "3.prems"(1) Inr okT bt have "r1 = Some s" by simp
        with bt "3.IH"(1)[OF Inr okT _ da1] show ?thesis by simp
      next
        case f: False
        have r1: "r1 = None"
        proof (cases r1)
          case None
          then show ?thesis .
        next
          case (Some s1)
          with f have "s1 = []" by simp
          moreover from backtrack_result(1)[OF bt] Some
          have "s1 = ?a1 \<or> s1 \<noteq> []" by blast
          ultimately have "?a1 = []" by simp
          with update_not_Nil[of var val a] show ?thesis by simp
        qed
        with backtrack_result(1)[OF bt] have "a1 = ?a1" by simp
        with del have d1: "AList.delete var a1 = a" by simp
        from f "3.prems"(1) Inr okT bt obtain m where
          "try_values cw d var rest (AList.delete var a1) = Inr (Some s, a', m)"
          by (auto split: sum.splits)
        from "3.IH"(2)[OF Inr okT bt refl refl f this] fresh da d1 show ?thesis by simp
      qed
    qed
  qed
qed

text \<open>
  The search is complete: started on a part of a solution that the domain store holds,
  it returns an assignment.
\<close>

lemma backtrack_complete:
  "well_formed cw \<Longrightarrow> domains_ok cw d \<Longrightarrow> assignment_ok cw d a \<Longrightarrow>
     consistent cw s = Inr True \<Longrightarrow> distinct (map fst s) \<Longrightarrow> holds cw d s \<Longrightarrow>
     set a \<subseteq> set s \<Longrightarrow> distinct (map fst a) \<Longrightarrow>
     \<exists>s' a' n. backtrack cw d a = Inr (Some s', a', n)"
  "well_formed cw \<Longrightarrow> domains_ok cw d \<Longrightarrow> assignment_ok cw d a \<Longrightarrow>
     consistent cw s = Inr True \<Longrightarrow> distinct (map fst s) \<Longrightarrow> holds cw d s \<Longrightarrow>
     set a \<subseteq> set s \<Longrightarrow> distinct (map fst a) \<Longrightarrow>
     var \<in> set (variables cw) \<Longrightarrow> var \<notin> fst ` set a \<Longrightarrow>
     \<exists>ws. map_of d var = Some ws \<and> set vals \<subseteq> set ws \<Longrightarrow>
     \<exists>w. map_of s var = Some w \<and> w \<in> set vals \<Longrightarrow>
     \<exists>s' a' n. try_values cw d var vals a = Inr (Some s', a', n)"
proof (induction cw d a and cw d var vals a rule: backtrack_try_values.induct)
  case (1 cw d a)
  show ?case
  proof (cases "assignment_complete cw a")
    case True
    then show ?thesis by (simp add: backtrack.simps)
  next
    case False
    from select_unassigned_variable_total[OF "1.prems"(2) False] obtain var where
      sel: "select_unassigned_variable cw d a = Inr var" by blast
    from select_unassigned_variable_fresh[OF sel] have var: "var \<in> set (variables cw)"
      and fresh: "var \<notin> fst ` set a" by auto
    from "1.prems"(6) var obtain w ws where w: "map_of s var = Some w"
      and ws: "map_of d var = Some ws" and wws: "w \<in> set ws" by (auto simp: holds_def)
    from order_domain_values_total[OF "1.prems"(2) ws] obtain vals where
      ord: "order_domain_values cw d var a = Inr vals" and vals: "set vals = set ws" by blast
    from ws vals have dom: "\<exists>ws. map_of d var = Some ws \<and> set vals \<subseteq> set ws" by auto
    from w wws vals have tgt: "\<exists>w. map_of s var = Some w \<and> w \<in> set vals" by auto
    from "1.IH"[OF False sel ord "1.prems" var fresh dom tgt] obtain s' a' n where
      "try_values cw d var vals a = Inr (Some s', a', n)" by blast
    with False sel ord show ?thesis by (simp add: backtrack.simps)
  qed
next
  case (2 cw d var a)
  then show ?case by simp
next
  case (3 cw d var val rest a)
  let ?a1 = "AList.update var val a"
  note wf = "3.prems"(1) and ok = "3.prems"(2) and aok = "3.prems"(3)
    and cs = "3.prems"(4) and ds = "3.prems"(5) and h = "3.prems"(6)
    and sub = "3.prems"(7) and da = "3.prems"(8)
    and var = "3.prems"(9) and fresh = "3.prems"(10)
  from "3.prems"(11) obtain ws where ws: "map_of d var = Some ws" and val: "val \<in> set ws"
    and rsub: "set rest \<subseteq> set ws" by auto
  from ws rsub have dom: "\<exists>ws. map_of d var = Some ws \<and> set rest \<subseteq> set ws" by blast
  from "3.prems"(12) obtain w where w: "map_of s var = Some w" and wv: "w = val \<or> w \<in> set rest"
    by auto
  have a1: "?a1 = a @ [(var, val)]" using fresh by (rule update_fresh)
  have del: "AList.delete var ?a1 = a" using fresh by (rule delete_update_fresh)
  have da1: "distinct (map fst ?a1)" using fresh da by (simp add: a1)
  from assignment_ok_update[OF aok var fresh ws val] have a1ok: "assignment_ok cw d ?a1" .
  from consistent_total[OF wf ok a1ok] obtain b where b: "consistent cw ?a1 = Inr b" by blast
  have hit: "consistent cw ?a1 = Inr True \<and> set ?a1 \<subseteq> set s" if "w = val"
  proof -
    from w that have "(var, val) \<in> set s" by (auto dest: map_of_SomeD)
    with sub have s1: "set ?a1 \<subseteq> set s" by (simp add: a1)
    from consistent_sub[OF cs ds s1 da1] s1 show ?thesis by simp
  qed
  have rest_run: "\<exists>s' a' n. try_values cw d var rest a = Inr (Some s', a', n)"
    if ih: "well_formed cw \<Longrightarrow> domains_ok cw d \<Longrightarrow> assignment_ok cw d a \<Longrightarrow>
        consistent cw s = Inr True \<Longrightarrow> distinct (map fst s) \<Longrightarrow> holds cw d s \<Longrightarrow>
        set a \<subseteq> set s \<Longrightarrow> distinct (map fst a) \<Longrightarrow>
        var \<in> set (variables cw) \<Longrightarrow> var \<notin> fst ` set a \<Longrightarrow>
        \<exists>ws. map_of d var = Some ws \<and> set rest \<subseteq> set ws \<Longrightarrow>
        \<exists>w. map_of s var = Some w \<and> w \<in> set rest \<Longrightarrow>
        \<exists>s' a' n. try_values cw d var rest a = Inr (Some s', a', n)"
      and nv: "w \<noteq> val"
  proof -
    from w wv nv have "\<exists>w. map_of s var = Some w \<and> w \<in> set rest" by auto
    from ih[OF wf ok aok cs ds h sub da var fresh dom this] show ?thesis .
  qed
  show ?case
  proof (cases b)
    case False
    then have bF: "b = False" by simp
    from b have cF: "consistent cw ?a1 = Inr False" unfolding bF .
    have nv: "w \<noteq> val"
    proof
      assume "w = val"
      from hit[OF this] have "consistent cw ?a1 = Inr True" by (rule conjunct1)
      with cF show False by simp
    qed
    from rest_run[OF "3.IH"(3)[OF b bF, unfolded del] nv]
    obtain s' a' n where run: "try_values cw d var rest a = Inr (Some s', a', n)" by blast
    have "try_values cw d var (val # rest) a = try_values cw d var rest (AList.delete var ?a1)"
      by (simp add: cF)
    with run show ?thesis unfolding del by simp
  next
    case True
    then have bT: "b = True" by simp
    from b have cT: "consistent cw ?a1 = Inr True" unfolding bT .
    from backtrack_total(1)[OF wf ok a1ok] obtain r1 a1' n1 where
      bt: "backtrack cw d ?a1 = Inr (r1, a1', n1)" by blast
    show ?thesis
    proof (cases "truthy r1")
      case t: True
      then obtain s1 where "r1 = Some s1" by (cases r1) auto
      with t cT bt show ?thesis by simp
    next
      case f: False
      have r1: "r1 = None"
      proof (cases r1)
        case None
        then show ?thesis .
      next
        case (Some s1)
        with f have "s1 = []" by simp
        moreover from backtrack_result(1)[OF bt] Some
        have "s1 = ?a1 \<or> s1 \<noteq> []" by blast
        ultimately have "?a1 = []" by simp
        with update_not_Nil[of var val a] show ?thesis by simp
      qed
      with backtrack_result(1)[OF bt] have "a1' = ?a1" by simp
      with del have d1: "AList.delete var a1' = a" by simp
      have nv: "w \<noteq> val"
      proof
        assume "w = val"
        from hit[OF this] have "set ?a1 \<subseteq> set s" by (rule conjunct2)
        from "3.IH"(1)[OF b bT wf ok a1ok cs ds h this da1] obtain s1 a2 n2 where
          "backtrack cw d ?a1 = Inr (Some s1, a2, n2)" by blast
        with bt r1 show False by simp
      qed
      from rest_run[OF "3.IH"(2)[OF b bT bt refl refl f, unfolded d1] nv]
      obtain s' a' n where run: "try_values cw d var rest a = Inr (Some s', a', n)" by blast
      have "try_values cw d var (val # rest) a =
          (case try_values cw d var rest (AList.delete var a1') of
             Inl e \<Rightarrow> Inl e | Inr (result', a'', m) \<Rightarrow> Inr (result', a'', n1 + m))"
        using f by (simp add: cT bt)
      with run show ?thesis unfolding d1 by simp
    qed
  qed
qed

lemma vocabulary_store_lookup:
  assumes "vocabulary_store cw d" and "map_of d v = Some ws"
  shows "distinct ws \<and> set ws = set (words cw)"
proof -
  from assms(2) have "(v, ws) \<in> set d" by (rule map_of_SomeD)
  with assms(1) show ?thesis by (auto simp: vocabulary_store_def list_all_iff)
qed

lemma domains_ok_vocabulary_store:
  assumes "vocabulary_store cw d"
  shows "domains_ok cw (enforce_node_consistency d)"
proof -
  have keys: "map fst (enforce_node_consistency d) = variables cw"
    using assms domains_le_keys[OF enforce_node_consistency_le, of d]
    by (simp add: vocabulary_store_def)
  have "distinct ws' \<and> (\<forall>w\<in>set ws'. length w = var_length v \<and> w \<in> set (words cw))"
    if "map_of (enforce_node_consistency d) v = Some ws'" for v ws'
  proof -
    from that obtain ws where ws: "map_of d v = Some ws"
      and ws': "ws' = filter (\<lambda>word. length word = var_length v) ws"
      by (auto simp: map_of_enforce_node_consistency)
    from vocabulary_store_lookup[OF assms ws] ws' show ?thesis by auto
  qed
  with keys show ?thesis unfolding domains_ok_def by blast
qed

lemma holds_vocabulary_store:
  assumes vs: "vocabulary_store cw d" and sol: "solution cw s"
  shows "holds cw (enforce_node_consistency d) s"
  unfolding holds_def
proof
  fix v assume v: "v \<in> set (variables cw)"
  from sol have c: "assignment_complete cw s" and cs: "consistent cw s = Inr True"
    and voc: "list_all (\<lambda>(var, word). word \<in> set (words cw)) s" by (auto simp: solution_def)
  from c v obtain w where w: "map_of s v = Some w"
    by (auto simp: assignment_complete_def list_all_iff)
  then have mem: "(v, w) \<in> set s" by (rule map_of_SomeD)
  with consistent_True[OF cs] have len: "length w = var_length v" by auto
  from mem voc have ww: "w \<in> set (words cw)" by (auto simp: list_all_iff)
  from vs v have "v \<in> fst ` set d" by (metis vocabulary_store_def set_map)
  then obtain ws where ws: "map_of d v = Some ws"
    by (cases "map_of d v") (auto simp: map_of_eq_None_iff)
  from vocabulary_store_lookup[OF vs ws] ww have "w \<in> set ws" by simp
  with ws len have "map_of (enforce_node_consistency d) v =
      Some (filter (\<lambda>word. length word = var_length v) ws) \<and>
      w \<in> set (filter (\<lambda>word. length word = var_length v) ws)"
    by (simp add: map_of_enforce_node_consistency)
  with w show "\<exists>w ws. map_of s v = Some w \<and> map_of (enforce_node_consistency d) v = Some ws \<and> w \<in> set ws"
    by blast
qed

lemma solve_finds_solution:
  assumes wf: "well_formed cw" and vs: "vocabulary_store cw d0"
  shows "\<exists>result n. solve cw d0 = Inr (result, n) \<and>
     ((result \<noteq> None) = (\<exists>s. solution cw s \<and> distinct (map fst s))) \<and>
     (\<forall>s. result = Some s \<longrightarrow> solution cw s \<and> distinct (map fst s))"
proof -
  let ?d1 = "enforce_node_consistency d0"
  note ok1 = domains_ok_vocabulary_store[OF vs]
  from ac3_loop_total[OF wf ok1 ac3_invariant_all_arcs]
  obtain ok d2 where loop: "ac3_loop cw (all_arcs cw) ?d1 = Inr (ok, d2)"
    and ok2: "domains_ok cw d2" by blast
  from loop have ac: "ac3 cw None ?d1 = Inr (ok, d2)" by (simp add: ac3_def)
  have empty_ok: "assignment_ok cw d2 []" by (simp add: assignment_ok_def)
  from backtrack_total(1)[OF wf ok2 empty_ok] obtain result a' n where
    bt: "backtrack cw d2 [] = Inr (result, a', n)"
    and rok: "\<forall>s. result = Some s \<longrightarrow> assignment_ok cw d2 s" by blast
  from ac bt have sv: "solve cw d0 = Inr (result, n)" by (simp add: solve_def)
  have sound: "solution cw s \<and> distinct (map fst s)" if s: "result = Some s" for s
  proof -
    from sv s have "solve cw d0 = Inr (Some s, n)" by simp
    from solve_result[OF this] assignment_ok_words[OF ok2] rok s
    have "solution cw s" by (simp add: solution_def)
    moreover from bt s have "backtrack cw d2 [] = Inr (Some s, a', n)" by simp
    from backtrack_distinct_keys(1)[OF this] have "distinct (map fst s)" by simp
    ultimately show ?thesis by simp
  qed
  have complete: "result \<noteq> None" if sol: "solution cw s" and ds: "distinct (map fst s)" for s
  proof -
    from sol have cs: "consistent cw s = Inr True" by (simp add: solution_def)
    from holds_vocabulary_store[OF vs sol] have "holds cw ?d1 s" .
    from ac3_loop_keeps_solution[OF wf cs this ac3_invariant_all_arcs loop]
    have "holds cw d2 s" .
    from backtrack_complete(1)[OF wf ok2 empty_ok cs ds this] bt show ?thesis by auto
  qed
  from sound complete have "(result \<noteq> None) = (\<exists>s. solution cw s \<and> distinct (map fst s))"
    by (cases result) auto
  with sv sound show ?thesis by blast
qed

text \<open>
  Claim C8, as the code has it. On a well-formed puzzle, whether \<^verbatim>\<open>solve\<close> returns an
  assignment or the absence value does not depend on the order in which any set is
  iterated: whatever the order in which each domain iterates the vocabulary, \<^verbatim>\<open>solve\<close>
  returns, and it returns an assignment exactly when the puzzle has a solution; the
  assignment it returns is a solution. Which assignment is returned does depend on the
  iteration order, by which the two heuristics break their ties:
  \<^verbatim>\<open>select_unassigned_variable\<close> returns the first of the unassigned slots with the least
  key (every slot before it has a greater key, no slot after it has a smaller one), and
  \<^verbatim>\<open>order_domain_values\<close> keeps the words of equal count in the order of the domain.
\<close>

theorem tie_breaks_follow_iteration_order_C8:
  "(well_formed cw \<longrightarrow> vocabulary_store cw d0 \<longrightarrow>
      (\<exists>result n. solve cw d0 = Inr (result, n) \<and>
         ((result \<noteq> None) = (\<exists>s. solution cw s \<and> distinct (map fst s))) \<and>
         (\<forall>s. result = Some s \<longrightarrow> solution cw s \<and> distinct (map fst s)))) \<and>
   (\<forall>var. select_unassigned_variable cw d a = Inr var \<longrightarrow>
      (\<exists>pre post k. unassigned cw a = pre @ var # post \<and> select_key cw d var = Inr k \<and>
         (\<forall>u\<in>set pre. \<exists>ku. select_key cw d u = Inr ku \<and> key_less k ku) \<and>
         (\<forall>u\<in>set post. \<exists>ku. select_key cw d u = Inr ku \<and> \<not> key_less ku k))) \<and>
   (\<forall>var vs. order_domain_values cw d var a = Inr vs \<longrightarrow>
      (\<exists>ws. map_of d var = Some ws \<and>
         (\<forall>c. filter (\<lambda>w. lcv_count cw d a var w = c) vs =
              filter (\<lambda>w. lcv_count cw d a var w = c) ws)))"
  using solve_finds_solution[of cw d0] heuristic_tie_breaks[of cw d a] by blast

theorem tie_breaks_follow_iteration_order_C8_witness:
  "well_formed (puzzle [''CAT'', ''CAR'', ''ARC'', ''TEN'']) \<and>
   vocabulary_store (puzzle [''CAT'', ''CAR'', ''ARC'', ''TEN''])
      [(slot_A, [''CAR'', ''CAT'', ''ARC'', ''TEN'']), (slot_B, [''TEN'', ''ARC'', ''CAT'', ''CAR''])] \<and>
   solve (puzzle [''CAT'', ''CAR'', ''ARC'', ''TEN''])
      [(slot_A, [''CAR'', ''CAT'', ''ARC'', ''TEN'']), (slot_B, [''TEN'', ''ARC'', ''CAT'', ''CAR''])]
     = Inr (Some [(slot_B, ''ARC''), (slot_A, ''CAR'')], 3) \<and>
   solution (puzzle [''CAT'', ''CAR'', ''ARC'', ''TEN'']) [(slot_B, ''ARC''), (slot_A, ''CAR'')] \<and>
   select_unassigned_variable (puzzle [''CAT'', ''CAR''])
      [(slot_A, [''CAT'', ''CAR'']), (slot_B, [''CAT'', ''CAR''])] [] = Inr slot_A \<and>
   (\<exists>pre post. unassigned (puzzle [''CAT'', ''CAR'']) [] = pre @ slot_A # post) \<and>
   order_domain_values (puzzle [''CAT'', ''CAR''])
      [(slot_A, [''CAT'', ''CAR'']), (slot_B, [''CAT'', ''CAR''])] slot_A [] = Inr [''CAT'', ''CAR''] \<and>
   (\<exists>ws. map_of [(slot_A, [''CAT'', ''CAR'']), (slot_B, [''CAT'', ''CAR''])] slot_A = Some ws \<and>
      filter (\<lambda>w. lcv_count (puzzle [''CAT'', ''CAR''])
          [(slot_A, [''CAT'', ''CAR'']), (slot_B, [''CAT'', ''CAR''])] [] slot_A w = 1) [''CAT'', ''CAR'']
        = filter (\<lambda>w. lcv_count (puzzle [''CAT'', ''CAR''])
          [(slot_A, [''CAT'', ''CAR'']), (slot_B, [''CAT'', ''CAR''])] [] slot_A w = 1) ws)"
proof -
  have wf: "well_formed (puzzle [''CAT'', ''CAR'', ''ARC'', ''TEN''])" by code_simp
  have vs: "vocabulary_store (puzzle [''CAT'', ''CAR'', ''ARC'', ''TEN''])
      [(slot_A, [''CAR'', ''CAT'', ''ARC'', ''TEN'']), (slot_B, [''TEN'', ''ARC'', ''CAT'', ''CAR''])]"
    by code_simp
  have run: "solve (puzzle [''CAT'', ''CAR'', ''ARC'', ''TEN''])
      [(slot_A, [''CAR'', ''CAT'', ''ARC'', ''TEN'']), (slot_B, [''TEN'', ''ARC'', ''CAT'', ''CAR''])]
     = Inr (Some [(slot_B, ''ARC''), (slot_A, ''CAR'')], 3)"
    by code_simp
  have sel: "select_unassigned_variable (puzzle [''CAT'', ''CAR''])
      [(slot_A, [''CAT'', ''CAR'']), (slot_B, [''CAT'', ''CAR''])] [] = Inr slot_A"
    by code_simp
  have ord: "order_domain_values (puzzle [''CAT'', ''CAR''])
      [(slot_A, [''CAT'', ''CAR'']), (slot_B, [''CAT'', ''CAR''])] slot_A [] = Inr [''CAT'', ''CAR'']"
    by code_simp
  note first = tie_breaks_follow_iteration_order_C8[of "puzzle [''CAT'', ''CAR'', ''ARC'', ''TEN'']"
      "[(slot_A, [''CAR'', ''CAT'', ''ARC'', ''TEN'']), (slot_B, [''TEN'', ''ARC'', ''CAT'', ''CAR''])]"]
  from first[THEN conjunct1, rule_format, OF wf vs] run
  have sol: "solution (puzzle [''CAT'', ''CAR'', ''ARC'', ''TEN'']) [(slot_B, ''ARC''), (slot_A, ''CAR'')]"
    by auto
  note ties = tie_breaks_follow_iteration_order_C8[of "puzzle [''CAT'', ''CAR'']" _
      "[(slot_A, [''CAT'', ''CAR'']), (slot_B, [''CAT'', ''CAR''])]" "[]"]
  from ties[THEN conjunct2, THEN conjunct1, rule_format, OF sel]
  have pre: "\<exists>pre post. unassigned (puzzle [''CAT'', ''CAR'']) [] = pre @ slot_A # post" by blast
  from ties[THEN conjunct2, THEN conjunct2, rule_format, OF ord]
  have stable: "\<exists>ws. map_of [(slot_A, [''CAT'', ''CAR'']), (slot_B, [''CAT'', ''CAR''])] slot_A = Some ws \<and>
      filter (\<lambda>w. lcv_count (puzzle [''CAT'', ''CAR''])
          [(slot_A, [''CAT'', ''CAR'']), (slot_B, [''CAT'', ''CAR''])] [] slot_A w = 1) [''CAT'', ''CAR'']
        = filter (\<lambda>w. lcv_count (puzzle [''CAT'', ''CAR''])
          [(slot_A, [''CAT'', ''CAR'']), (slot_B, [''CAT'', ''CAR''])] [] slot_A w = 1) ws"
    by blast
  from wf vs run sol sel pre ord stable show ?thesis by (intro conjI)
qed

end
